theory Spec2Isabelle
  imports Main "HOL-Library.Word" "HOL-Library.Monad_Syntax"
begin

unbundle bit_operations_syntax

section \<open>The D64 file system device (FSDevice.cpp)\<close>

subsection \<open>Machine types\<close>

type_synonym u8 = "8 word"

text \<open>
  \<open>Block\<close>, \<open>Track\<close> and \<open>Sector\<close> are unsigned 32-bit numbers in the source.
  They are modelled as natural numbers; every 32-bit operation the source performs
  on them is written with its wrap-around (\<open>u32\<close>).
\<close>

definition u32 :: "nat \<Rightarrow> nat" where
  "u32 n = n mod 2 ^ 32"

text \<open>Subtraction of two 32-bit numbers: below zero it wraps around.\<close>

definition u32_sub :: "nat \<Rightarrow> nat \<Rightarrow> nat" where
  "u32_sub a b = nat ((int a - int b) mod 2 ^ 32)"

type_synonym BlockRef = "nat \<times> nat"

datatype FSError = FS_OK | FS_WRONG_CAPACITY | FS_DIRECTORY_NOT_EMPTY

datatype FSBlockType = FS_UNKNOWN_BLOCK | FS_KNOWN_BLOCK nat

datatype FSItemType = FSI_UNUSED | FSI_USED nat

subsection \<open>Device layout\<close>

text \<open>
  The class \<open>FSDeviceDescriptor\<close> (the member \<open>layout\<close>) is not part of the
  sources at hand. The functions of it that \<open>FSDevice.cpp\<close> calls are the fields of
  this record, so every operation below is parametric in the layout.
  \<open>translateBlockNr\<close> is the overload that maps a track/sector pair to a block number,
  \<open>translateBlockNrTS\<close> the one that maps a block number to its track and sector.
  \<open>nextTrackAndSector\<close> yields the success flag and the values written to its
  two output pointers.
\<close>

record FSDeviceDescriptor =
  numBlocks :: nat
  isTrackSectorPair :: "nat \<Rightarrow> nat \<Rightarrow> bool"
  isValidRef :: "BlockRef \<Rightarrow> bool"
  translateBlockNr :: "nat \<Rightarrow> nat \<Rightarrow> nat"
  translateBlockNrTS :: "nat \<Rightarrow> nat \<times> nat"
  nextTrackAndSector :: "nat \<Rightarrow> nat \<Rightarrow> bool \<times> nat \<times> nat"
  nextBlockRef :: "BlockRef \<Rightarrow> BlockRef"

subsection \<open>Blocks and the device\<close>

text \<open>
  An \<open>FSBlock\<close> carries its number, 256 data bytes and the \<open>corrupted\<close> counter.
  A pointer to a block of the device is the index of the block in \<open>blocks\<close>;
  \<open>None\<close> is the null pointer.
\<close>

record FSBlock =
  nr :: nat
  data :: "u8 list"
  corrupted :: nat

record FSDevice =
  blocks :: "FSBlock list"
  layout :: FSDeviceDescriptor

text \<open>
  Modelled from the spec: the constructor of \<open>FSBlock\<close> is missing from the sources;
  a new block has its number and 256 zero bytes.
\<close>

definition FSBlock_new :: "nat \<Rightarrow> FSBlock" where
  "FSBlock_new i = \<lparr>nr = i, data = replicate 256 0, corrupted = 0\<rparr>"

text \<open>\<open>FSDevice::FSDevice(u32 capacity)\<close> followed by \<open>dev->layout = layout\<close>.\<close>

definition makeWithFormat :: "FSDeviceDescriptor \<Rightarrow> FSDevice" where
  "makeWithFormat l = \<lparr>blocks = map FSBlock_new [0..<numBlocks l], layout = l\<rparr>"

text \<open>
  A C++ \<open>for (u32 i = 0; i < n; i++)\<close> loop whose body may fail (a failed assertion
  or an access outside an array): the body is run for every index in turn and the
  first failure ends the run.
\<close>

primrec forM :: "nat list \<Rightarrow> (nat \<Rightarrow> 'a \<Rightarrow> 'a option) \<Rightarrow> 'a \<Rightarrow> 'a option" where
  "forM [] f x = Some x"
| "forM (i # is) f x = (case f i x of None \<Rightarrow> None | Some y \<Rightarrow> forM is f y)"

subsection \<open>Looking up blocks\<close>

definition blockPtr :: "FSDevice \<Rightarrow> nat \<Rightarrow> nat option" where
  "blockPtr dev b = (if b < length (blocks dev) then Some b else None)"

definition blockPtrTS :: "FSDevice \<Rightarrow> nat \<Rightarrow> nat \<Rightarrow> nat option" where
  "blockPtrTS dev t s = blockPtr dev (translateBlockNr (layout dev) t s)"

text \<open>
  \<open>FSBlock::type()\<close> and \<open>FSBlock::itemType(pos)\<close> are not in the sources: they are
  the parameters \<open>typeOf\<close> and \<open>itemTypeOf\<close>.
\<close>

definition blockType :: "(FSBlock \<Rightarrow> FSBlockType) \<Rightarrow> FSDevice \<Rightarrow> 32 word \<Rightarrow> FSBlockType" where
  "blockType typeOf dev n =
     (case blockPtr dev (unat n) of
        Some b \<Rightarrow> typeOf (blocks dev ! unat n)
      | None \<Rightarrow> FS_UNKNOWN_BLOCK)"

definition itemType ::
  "(FSBlock \<Rightarrow> 32 word \<Rightarrow> FSItemType) \<Rightarrow> FSDevice \<Rightarrow> 32 word \<Rightarrow> 32 word \<Rightarrow> FSItemType" where
  "itemType itemTypeOf dev n pos =
     (case blockPtr dev (unat n) of
        Some b \<Rightarrow> itemTypeOf (blocks dev ! unat n) pos
      | None \<Rightarrow> FSI_UNUSED)"

definition getCorrupted :: "FSDevice \<Rightarrow> 32 word \<Rightarrow> nat" where
  "getCorrupted dev blockNr =
     (case blockPtr dev (unat blockNr) of
        Some b \<Rightarrow> corrupted (blocks dev ! unat blockNr)
      | None \<Rightarrow> 0)"

text \<open>
  \<open>readByte(block, offset)\<close> asserts that the offset is below 256 and the block
  number below the number of blocks; a failed assertion gives no result.
\<close>

definition readByte :: "FSDevice \<Rightarrow> 32 word \<Rightarrow> 32 word \<Rightarrow> u8 option" where
  "readByte dev block offset =
     (if \<not> unat offset < 256 then None
      else if \<not> unat block < length (blocks dev) then None
      else if unat offset < length (data (blocks dev ! unat block))
      then Some (data (blocks dev ! unat block) ! unat offset) else None)"

text \<open>
  \<open>check(blockNr, pos, expected, strict)\<close> indexes \<open>blocks[blockNr]\<close> with no test of
  the number: outside the vector the access has no defined result. \<open>FSBlock::check\<close>
  is not in the sources: it is the parameter \<open>blockCheck\<close>.
\<close>

definition checkAt ::
  "(FSBlock \<Rightarrow> 32 word \<Rightarrow> bool \<Rightarrow> 'r) \<Rightarrow> FSDevice \<Rightarrow> 32 word \<Rightarrow> 32 word \<Rightarrow> bool
     \<Rightarrow> 'r option" where
  "checkAt blockCheck dev blockNr pos strict =
     (if unat blockNr < length (blocks dev)
      then Some (blockCheck (blocks dev ! unat blockNr) pos strict) else None)"

subsection \<open>Importing and exporting a volume\<close>

text \<open>
  Modelled from the spec: \<open>FSBlock::importBlock\<close> and \<open>FSBlock::exportBlock\<close> are
  missing from the sources; the spec has the volume copied into the blocks and back,
  256 bytes per block.
\<close>

definition importBlock :: "FSBlock \<Rightarrow> u8 list \<Rightarrow> FSBlock" where
  "importBlock b src = b\<lparr>data := take 256 src\<rparr>"

definition exportBlock :: "FSBlock \<Rightarrow> u8 list" where
  "exportBlock b = take 256 (data b)"

text \<open>
  The optional output parameter \<open>FSError *error\<close>: \<open>None\<close> is a null pointer,
  \<open>Some e\<close> a pointer to a variable that holds \<open>e\<close>.
\<close>

definition setError :: "FSError option \<Rightarrow> FSError \<Rightarrow> FSError option" where
  "setError error e = (case error of None \<Rightarrow> None | Some _ \<Rightarrow> Some e)"

text \<open>
  The body of the import loop: block \<open>i\<close> reads from \<open>src + i * 256\<close>, the product
  taken in 32 bits. Reading past the end of the buffer has no defined result.
\<close>

definition importStep :: "u8 list \<Rightarrow> nat \<Rightarrow> FSBlock list \<Rightarrow> FSBlock list option" where
  "importStep src i bs =
     (let off = u32 (i * 256) in
      if i < length bs \<and> off + 256 \<le> length src
      then Some (bs[i := importBlock (bs ! i) (drop off src)])
      else None)"

definition importVolume ::
  "FSDevice \<Rightarrow> u8 list \<Rightarrow> FSError option \<Rightarrow> (bool \<times> FSDevice \<times> FSError option) option" where
  "importVolume dev src error =
     (if length (blocks dev) * 256 \<noteq> length src
      then Some (False, dev, setError error FS_WRONG_CAPACITY)
      else case forM [0..<length (blocks dev)] (importStep src) (blocks dev) of
             None \<Rightarrow> None
           | Some bs \<Rightarrow> Some (True, dev\<lparr>blocks := bs\<rparr>, setError error FS_OK))"

text \<open>
  The body of the export loop: block \<open>first + i\<close> writes its 256 bytes to
  \<open>dst + i * 256\<close>.
\<close>

definition exportStep :: "FSDevice \<Rightarrow> nat \<Rightarrow> nat \<Rightarrow> u8 list \<Rightarrow> u8 list option" where
  "exportStep dev first i dst =
     (let b = u32 (first + i); off = u32 (i * 256) in
      if b < length (blocks dev) \<and> off + 256 \<le> length dst
      then Some (take off dst @ exportBlock (blocks dev ! b) @ drop (off + 256) dst)
      else None)"

definition exportBlocks ::
  "FSDevice \<Rightarrow> nat \<Rightarrow> nat \<Rightarrow> u8 list \<Rightarrow> FSError option
     \<Rightarrow> (bool \<times> u8 list \<times> FSError option) option" where
  "exportBlocks dev first lastb dst error =
     (if \<not> (lastb < numBlocks (layout dev)) \<or> \<not> (first \<le> lastb) then None
      else let count = u32 (u32_sub lastb first + 1) in
        if u32 (count * 256) \<noteq> length dst
        then Some (False, dst, setError error FS_WRONG_CAPACITY)
        else case forM [0..<count] (exportStep dev first) (replicate (length dst) 0) of
               None \<Rightarrow> None
             | Some d \<Rightarrow> Some (True, d, setError error FS_OK))"

definition exportVolume ::
  "FSDevice \<Rightarrow> u8 list \<Rightarrow> FSError option \<Rightarrow> (bool \<times> u8 list \<times> FSError option) option" where
  "exportVolume dev dst error =
     exportBlocks dev 0 (u32_sub (numBlocks (layout dev)) 1) dst error"

subsection \<open>The block allocation map\<close>

text \<open>
  Modelled from the spec: \<open>bamPtr()\<close> is declared in \<open>FSDevice.h\<close>, which is missing
  from the sources; the spec has the BAM in the block at (18,0).
\<close>

definition bamPtr :: "FSDevice \<Rightarrow> nat option" where
  "bamPtr dev = blockPtrTS dev 18 0"

text \<open>
  \<open>locateAllocationBit(t, s, &byte, &bit)\<close>: the assertion, then the byte and the bit
  of the BAM that belong to sector \<open>s\<close> of track \<open>t\<close>. The pointer it returns is
  \<open>bamPtr()\<close>. The overload that takes a \<open>BlockRef\<close> asserts \<open>isValidRef\<close> instead.
\<close>

definition locateAllocationBit :: "FSDevice \<Rightarrow> nat \<Rightarrow> nat \<Rightarrow> (nat \<times> nat) option" where
  "locateAllocationBit dev t s =
     (if isTrackSectorPair (layout dev) t s
      then Some (u32 (4 * t + 1 + s div 8), s mod 8)
      else None)"

definition locateAllocationBitRef :: "FSDevice \<Rightarrow> BlockRef \<Rightarrow> (nat \<times> nat) option" where
  "locateAllocationBitRef dev ref =
     (if isValidRef (layout dev) ref
      then Some (u32 (4 * fst ref + 1 + snd ref div 8), snd ref mod 8)
      else None)"

text \<open>
  Reading \<open>bam->data[byte]\<close>: there is no result when the BAM pointer is null or
  the index lies outside the data array. The macros \<open>GET_BIT\<close>, \<open>SET_BIT\<close> and
  \<open>CLR_BIT\<close> are not in the sources; they test, set and clear one bit of a byte.
\<close>

definition bamByte :: "FSDevice \<Rightarrow> nat \<Rightarrow> u8 option" where
  "bamByte dev byte =
     (case bamPtr dev of
        None \<Rightarrow> None
      | Some bam \<Rightarrow>
          if byte < length (data (blocks dev ! bam))
          then Some (data (blocks dev ! bam) ! byte) else None)"

definition isFree :: "FSDevice \<Rightarrow> nat \<Rightarrow> nat \<Rightarrow> bool option" where
  "isFree dev t s =
     (case locateAllocationBit dev t s of
        None \<Rightarrow> None
      | Some (byte, bt) \<Rightarrow> map_option (\<lambda>x. bit x bt) (bamByte dev byte))"

definition isFreeRef :: "FSDevice \<Rightarrow> BlockRef \<Rightarrow> bool option" where
  "isFreeRef dev ref =
     (case locateAllocationBitRef dev ref of
        None \<Rightarrow> None
      | Some (byte, bt) \<Rightarrow> map_option (\<lambda>x. bit x bt) (bamByte dev byte))"

text \<open>
  \<open>locateAllocationBit(b, &byte, &bit)\<close> and \<open>isFree(b)\<close> for a block number: the
  assertion \<open>b < blocks.size()\<close>, then the translation to a track and a sector.
\<close>

definition locateAllocationBitB :: "FSDevice \<Rightarrow> 32 word \<Rightarrow> (nat \<times> nat) option" where
  "locateAllocationBitB dev b =
     (if \<not> unat b < length (blocks dev) then None
      else case translateBlockNrTS (layout dev) (unat b) of
             (t, s) \<Rightarrow> locateAllocationBit dev t s)"

definition isFreeB :: "FSDevice \<Rightarrow> 32 word \<Rightarrow> bool option" where
  "isFreeB dev b =
     (case locateAllocationBitB dev b of
        None \<Rightarrow> None
      | Some (byte, bt) \<Rightarrow> map_option (\<lambda>x. bit x bt) (bamByte dev byte))"

text \<open>Writing the data array of block \<open>p\<close> of the device.\<close>

definition setData :: "FSDevice \<Rightarrow> nat \<Rightarrow> u8 list \<Rightarrow> FSDevice" where
  "setData dev p d = dev\<lparr>blocks := (blocks dev)[p := (blocks dev ! p)\<lparr>data := d\<rparr>]\<rparr>"

text \<open>
  The two updates of \<open>setAllocationBit\<close> on the data of the BAM block. \<open>byte & ~0b11\<close>
  is the index of the free-sector count of the track; the count is a byte, so \<open>++\<close>
  and \<open>--\<close> wrap around.
\<close>

definition markFree :: "u8 list \<Rightarrow> nat \<Rightarrow> nat \<Rightarrow> u8 list" where
  "markFree d byte bt =
     (let d1 = d[byte := set_bit bt (d ! byte)]; c = 4 * (byte div 4)
      in d1[c := d1 ! c + 1])"

definition markUsed :: "u8 list \<Rightarrow> nat \<Rightarrow> nat \<Rightarrow> u8 list" where
  "markUsed d byte bt =
     (let d1 = d[byte := unset_bit bt (d ! byte)]; c = 4 * (byte div 4)
      in d1[c := d1 ! c - 1])"

definition setAllocationBit :: "FSDevice \<Rightarrow> nat \<Rightarrow> nat \<Rightarrow> bool \<Rightarrow> FSDevice option" where
  "setAllocationBit dev t s v =
     (case locateAllocationBit dev t s of
        None \<Rightarrow> None
      | Some (byte, bt) \<Rightarrow>
          (case bamPtr dev of
             None \<Rightarrow> None
           | Some bam \<Rightarrow>
               let d = data (blocks dev ! bam) in
               if \<not> byte < length d then None
               else
                 let d1 = (if v \<and> \<not> bit (d ! byte) bt then markFree d byte bt else d);
                     d2 = (if \<not> v \<and> bit (d1 ! byte) bt then markUsed d1 byte bt else d1)
                 in Some (setData dev bam d2)))"

text \<open>The overload that takes a block number translates it first.\<close>

definition setAllocationBitB :: "FSDevice \<Rightarrow> nat \<Rightarrow> bool \<Rightarrow> FSDevice option" where
  "setAllocationBitB dev b v =
     (case translateBlockNrTS (layout dev) b of (t, s) \<Rightarrow> setAllocationBit dev t s v)"

text \<open>
  Modelled from the spec: \<open>markAsAllocated\<close> and \<open>markAsFree\<close> are declared in
  \<open>FSDevice.h\<close>, which is missing from the sources; the spec has the bit of an
  allocated block cleared and the free count of its track decremented, which is
  \<open>setAllocationBit\<close> with the value false.
\<close>

definition markAsAllocated :: "FSDevice \<Rightarrow> nat \<Rightarrow> nat \<Rightarrow> FSDevice option" where
  "markAsAllocated dev t s = setAllocationBit dev t s False"

definition markAsFree :: "FSDevice \<Rightarrow> nat \<Rightarrow> nat \<Rightarrow> FSDevice option" where
  "markAsFree dev t s = setAllocationBit dev t s True"

text \<open>
  The invariant of the BAM for the track whose group of four bytes starts at \<open>4 * t\<close>:
  the first byte is the number of bits set in the three bytes that follow it.
\<close>

definition popcount :: "u8 \<Rightarrow> nat" where
  "popcount x = length (filter (bit x) [0..<8])"

definition countOk :: "u8 list \<Rightarrow> nat \<Rightarrow> bool" where
  "countOk d t =
     (4 * t + 3 < length d
      \<and> unat (d ! (4 * t))
          = popcount (d ! (4 * t + 1)) + popcount (d ! (4 * t + 2)) + popcount (d ! (4 * t + 3)))"

definition bamCountOk :: "FSDevice \<Rightarrow> nat \<Rightarrow> bool" where
  "bamCountOk dev t =
     (case bamPtr dev of
        None \<Rightarrow> False
      | Some bam \<Rightarrow> countOk (data (blocks dev ! bam)) t)"

text \<open>
  The operations that change the allocation map, and a sequence of them run in
  turn; a failed assertion ends the run.
\<close>

datatype BamOp =
    SetAllocationBit nat nat bool
  | SetAllocationBitB nat bool
  | MarkAsAllocated nat nat
  | MarkAsFree nat nat

fun applyBamOp :: "FSDevice \<Rightarrow> BamOp \<Rightarrow> FSDevice option" where
  "applyBamOp dev (SetAllocationBit t s v) = setAllocationBit dev t s v"
| "applyBamOp dev (SetAllocationBitB b v) = setAllocationBitB dev b v"
| "applyBamOp dev (MarkAsAllocated t s) = markAsAllocated dev t s"
| "applyBamOp dev (MarkAsFree t s) = markAsFree dev t s"

fun applyBamOps :: "FSDevice \<Rightarrow> BamOp list \<Rightarrow> FSDevice option" where
  "applyBamOps dev [] = Some dev"
| "applyBamOps dev (x # xs) =
     (case applyBamOp dev x of None \<Rightarrow> None | Some dev' \<Rightarrow> applyBamOps dev' xs)"

subsection \<open>Allocating blocks\<close>

text \<open>
  \<open>nextFreeBlock\<close>: the loop runs while the track of the reference is not zero and
  the block is not free. Nothing in \<open>FSDevice.cpp\<close> bounds the walk, so the loop is a
  partial function: \<open>None\<close> stands for a walk that does not end or that stops in a
  failed assertion of \<open>isFree\<close>.
\<close>

partial_function (option) nextFreeBlockLoop :: "FSDevice \<Rightarrow> BlockRef \<Rightarrow> BlockRef option" where
  "nextFreeBlockLoop dev ref =
     (if fst ref = 0 then Some ref
      else case isFreeRef dev ref of
             None \<Rightarrow> None
           | Some free \<Rightarrow>
               if free then Some ref
               else nextFreeBlockLoop dev (nextBlockRef (layout dev) ref))"

definition nextFreeBlock :: "FSDevice \<Rightarrow> BlockRef \<Rightarrow> BlockRef option" where
  "nextFreeBlock dev ref =
     (if \<not> isValidRef (layout dev) ref then Some (0, 0) else nextFreeBlockLoop dev ref)"

text \<open>
  Writing the link bytes \<open>data[0]\<close> and \<open>data[1]\<close> of a block through a pointer; a
  null pointer gives no result. The track and the sector are cut to a byte.
\<close>

definition setLink :: "FSDevice \<Rightarrow> nat option \<Rightarrow> nat \<Rightarrow> nat \<Rightarrow> FSDevice option" where
  "setLink dev ptr t s =
     (case ptr of
        None \<Rightarrow> None
      | Some p \<Rightarrow>
          if length (data (blocks dev ! p)) < 2 then None
          else Some (setData dev p ((data (blocks dev ! p))[0 := of_nat t, 1 := of_nat s])))"

text \<open>
  The state of the loop of \<open>allocate\<close>: the device, the reference \<open>ref\<close>, the list
  \<open>result\<close> and the pointer \<open>block\<close>. The flag that \<open>nextTrackAndSector\<close> returns is
  dropped, as in the source.
\<close>

definition allocateStep ::
  "nat \<Rightarrow> FSDevice \<times> BlockRef \<times> BlockRef list \<times> nat option
     \<Rightarrow> (FSDevice \<times> BlockRef \<times> BlockRef list \<times> nat option) option" where
  "allocateStep i st =
     (case st of (dev, ref, result, block) \<Rightarrow>
        (case markAsAllocated dev (fst ref) (snd ref) of
           None \<Rightarrow> None
         | Some dev1 \<Rightarrow>
             let block' = blockPtrTS dev1 (fst ref) (snd ref);
                 ref' = snd (nextTrackAndSector (layout dev1) (fst ref) (snd ref))
             in (case setLink dev1 block' (fst ref') (snd ref') of
                   None \<Rightarrow> None
                 | Some dev2 \<Rightarrow> Some (dev2, ref', result @ [ref], block'))))"

definition allocate :: "FSDevice \<Rightarrow> BlockRef \<Rightarrow> nat \<Rightarrow> (FSDevice \<times> BlockRef list) option" where
  "allocate dev ref n =
     (if \<not> 0 < n then None
      else case nextFreeBlock dev ref of
             None \<Rightarrow> None
           | Some ref1 \<Rightarrow>
               if fst ref1 \<noteq> 0
               then (case forM [0..<n] allocateStep (dev, ref1, [], None) of
                       None \<Rightarrow> None
                     | Some (dev1, ref2, result, block) \<Rightarrow>
                         (case setLink dev1 block 0 0 of
                            None \<Rightarrow> None
                          | Some dev2 \<Rightarrow> Some (dev2, result)))
               else Some (dev, []))"

text \<open>
  Modelled from the spec: the overload \<open>allocate(n)\<close> is declared in \<open>FSDevice.h\<close>,
  which is missing from the sources; the spec has it start at (1,0).
\<close>

definition allocateN :: "FSDevice \<Rightarrow> nat \<Rightarrow> (FSDevice \<times> BlockRef list) option" where
  "allocateN dev n = allocate dev (1, 0) n"

text \<open>
  The references the loop of \<open>allocate\<close> goes through: it starts at a reference and
  takes, \<open>n\<close> times, the outputs of \<open>nextTrackAndSector\<close> as the next one.
\<close>

fun walk :: "FSDeviceDescriptor \<Rightarrow> BlockRef \<Rightarrow> nat \<Rightarrow> BlockRef list" where
  "walk l r 0 = []"
| "walk l r (Suc n) = r # walk l (snd (nextTrackAndSector l (fst r) (snd r))) n"

text \<open>
  Two devices that differ at most in the data of the blocks of a set: they have the
  same layout and the same number of blocks, every block outside the set is the
  same, and every data array has kept its length.
\<close>

definition sameExcept :: "FSDevice \<Rightarrow> FSDevice \<Rightarrow> nat set \<Rightarrow> bool" where
  "sameExcept dev dev' S =
     (layout dev' = layout dev \<and> length (blocks dev') = length (blocks dev)
      \<and> (\<forall>p. p \<notin> S \<longrightarrow> blocks dev' ! p = blocks dev ! p)
      \<and> (\<forall>p. length (data (blocks dev' ! p)) = length (data (blocks dev ! p))))"

text \<open>The block number of a reference in the layout of a device.\<close>

definition blockNr :: "FSDevice \<Rightarrow> BlockRef \<Rightarrow> nat" where
  "blockNr dev r = translateBlockNr (layout dev) (fst r) (snd r)"

text \<open>
  What the loop of \<open>allocate\<close> needs of the references it goes through, for a
  device whose BAM is the block \<open>bam\<close>: they are track and sector pairs of the layout
  whose BAM byte lies in the data array, and they name blocks of the device, all
  different and different from the BAM block.
\<close>

definition refsOk :: "FSDevice \<Rightarrow> nat \<Rightarrow> BlockRef list \<Rightarrow> bool" where
  "refsOk dev bam rs =
     (distinct (map (blockNr dev) rs)
      \<and> (\<forall>r \<in> set rs.
            isTrackSectorPair (layout dev) (fst r) (snd r)
            \<and> u32 (4 * fst r + 1 + snd r div 8) < length (data (blocks dev ! bam))
            \<and> blockNr dev r < length (blocks dev)
            \<and> blockNr dev r \<noteq> bam
            \<and> 2 \<le> length (data (blocks dev ! blockNr dev r))))"

text \<open>
  The data of the BAM block after \<open>markAsAllocated\<close> for a reference: the bit of the
  reference is cleared and the count of its track decremented if the bit was set.
\<close>

definition clearBit :: "u8 list \<Rightarrow> BlockRef \<Rightarrow> u8 list" where
  "clearBit d r =
     (let byte = u32 (4 * fst r + 1 + snd r div 8); bt = snd r mod 8
      in if bit (d ! byte) bt then markUsed d byte bt else d)"

text \<open>
  The bit of a reference in the data of the BAM block: it is set when the block is
  free.
\<close>

definition freeBit :: "u8 list \<Rightarrow> BlockRef \<Rightarrow> bool" where
  "freeBit d r = bit (d ! (4 * fst r + 1 + snd r div 8)) (snd r mod 8)"

text \<open>The data of a block with its two link bytes set to a reference.\<close>

definition withLink :: "BlockRef \<Rightarrow> u8 list \<Rightarrow> u8 list" where
  "withLink r d = d[0 := of_nat (fst r), 1 := of_nat (snd r)]"

subsection \<open>The directory\<close>

text \<open>
  A pointer to a directory entry is a block of the device and the number of one of
  its eight entries; the entry is the 32 bytes at offset \<open>32 * k\<close> of the block.
  \<open>FSDirEntry::isEmpty\<close> and \<open>FSDirEntry::isHidden\<close> are not in the sources: they are
  the parameters \<open>isEmpty\<close> and \<open>isHidden\<close>, functions of the 32 bytes of an entry.
\<close>

type_synonym FSDirEntryPtr = "nat \<times> nat"

definition entryBytes :: "FSDevice \<Rightarrow> FSDirEntryPtr \<Rightarrow> u8 list" where
  "entryBytes dev e = take 32 (drop (32 * snd e) (data (blocks dev ! fst e)))"

definition nextBlockPtr :: "FSDevice \<Rightarrow> nat option \<Rightarrow> nat option" where
  "nextBlockPtr dev ptr =
     (case ptr of
        None \<Rightarrow> None
      | Some p \<Rightarrow>
          blockPtrTS dev (unat (data (blocks dev ! p) ! 0)) (unat (data (blocks dev ! p) ! 1)))"

function scanLoop ::
  "(u8 list \<Rightarrow> bool) \<Rightarrow> (u8 list \<Rightarrow> bool) \<Rightarrow> FSDevice \<Rightarrow> bool
     \<Rightarrow> nat option \<Rightarrow> nat \<Rightarrow> FSDirEntryPtr list \<Rightarrow> FSDirEntryPtr list" where
  "scanLoop isEmpty isHidden dev skipInvisible ptr i result =
     (case ptr of
        None \<Rightarrow> result
      | Some p \<Rightarrow>
          if \<not> i < 144 then result
          else if isEmpty (entryBytes dev (p, i mod 8)) then result
          else scanLoop isEmpty isHidden dev skipInvisible
                 (if i mod 8 = 7 then nextBlockPtr dev ptr else ptr)
                 (i + 1)
                 (if \<not> (skipInvisible \<and> isHidden (entryBytes dev (p, i mod 8)))
                  then result @ [(p, i mod 8)] else result))"
  by pat_completeness auto
termination
  by (relation "measure (\<lambda>(isEmpty, isHidden, dev, skipInvisible, ptr, i, result). 144 - i)") auto

declare scanLoop.simps [simp del]

definition scanDirectory ::
  "(u8 list \<Rightarrow> bool) \<Rightarrow> (u8 list \<Rightarrow> bool) \<Rightarrow> FSDevice \<Rightarrow> bool \<Rightarrow> FSDirEntryPtr list" where
  "scanDirectory isEmpty isHidden dev skipInvisible =
     scanLoop isEmpty isHidden dev skipInvisible (blockPtrTS dev 18 1) 0 []"

subsection \<open>Writing a file\<close>

definition blockPtrRef :: "FSDevice \<Rightarrow> BlockRef \<Rightarrow> nat option" where
  "blockPtrRef dev ref = blockPtrTS dev (fst ref) (snd ref)"

text \<open>\<open>ptr->data[j] = b\<close>, followed by the increment of \<open>j\<close>.\<close>

definition writeByteAt ::
  "FSDevice \<Rightarrow> nat \<Rightarrow> nat option \<Rightarrow> nat \<Rightarrow> u8
     \<Rightarrow> (FSDevice \<times> nat \<times> nat option \<times> nat) option" where
  "writeByteAt dev it ptr j b =
     (case ptr of
        None \<Rightarrow> None
      | Some p \<Rightarrow>
          if j < length (data (blocks dev ! p))
          then Some (setData dev p ((data (blocks dev ! p))[j := b]), it, ptr, j + 1)
          else None)"

text \<open>
  The body of the loop of \<open>makeFile\<close> that writes the data. The state is the device,
  the iterator \<open>it\<close> (an index into \<open>blockList\<close>), the pointer \<open>ptr\<close> and the offset
  \<open>j\<close>. Stepping the iterator past the last block has no defined result.
\<close>

definition writeStep ::
  "BlockRef list \<Rightarrow> u8 list \<Rightarrow> nat \<Rightarrow> FSDevice \<times> nat \<times> nat option \<times> nat
     \<Rightarrow> (FSDevice \<times> nat \<times> nat option \<times> nat) option" where
  "writeStep blockList buf i st =
     (case st of (dev, it, ptr, j) \<Rightarrow>
        if j = 0x100
        then (if it + 1 < length blockList
              then writeByteAt dev (it + 1) (blockPtrRef dev (blockList ! (it + 1))) 2 (buf ! i)
              else None)
        else writeByteAt dev it ptr j (buf ! i))"

text \<open>
  \<open>FSDirEntry::init\<close> is not in the sources: it is the parameter \<open>dirInit\<close>, which
  maps the name, the first block, the number of blocks and the 32 bytes of the entry
  to the new 32 bytes of the entry.
\<close>

definition initEntry ::
  "(string \<Rightarrow> BlockRef \<Rightarrow> nat \<Rightarrow> u8 list \<Rightarrow> u8 list) \<Rightarrow> FSDevice \<Rightarrow> FSDirEntryPtr
     \<Rightarrow> string \<Rightarrow> BlockRef \<Rightarrow> nat \<Rightarrow> FSDevice" where
  "initEntry dirInit dev dir name ref n =
     (let d = data (blocks dev ! fst dir); off = 32 * snd dir
      in setData dev (fst dir)
           (take off d @ dirInit name ref n (take 32 (drop off d)) @ drop (off + 32) d))"

text \<open>\<open>makeFile(name, dir, buf, cnt)\<close>; the buffer is the list \<open>buf\<close>, \<open>cnt\<close> its length.\<close>

definition makeFileEntry ::
  "(string \<Rightarrow> BlockRef \<Rightarrow> nat \<Rightarrow> u8 list \<Rightarrow> u8 list) \<Rightarrow> FSDevice \<Rightarrow> string
     \<Rightarrow> FSDirEntryPtr \<Rightarrow> u8 list \<Rightarrow> (bool \<times> FSDevice) option" where
  "makeFileEntry dirInit dev name dir buf =
     (let numBlocks = u32 ((length buf + 253) div 254) in
      case allocateN dev numBlocks of
        None \<Rightarrow> None
      | Some (dev1, blockList) \<Rightarrow>
          if blockList = [] then Some (False, dev1)
          else
            (case forM [0..<length buf] (writeStep blockList buf)
                    (dev1, 0, blockPtrRef dev1 (blockList ! 0), 2) of
               None \<Rightarrow> None
             | Some (dev2, it, ptr, j) \<Rightarrow>
                 Some (True, initEntry dirInit dev2 dir name (blockList ! 0) numBlocks)))"

text \<open>\<open>makeFile(name, buf, cnt)\<close>: the search for a free directory entry.\<close>

function makeFileLoop ::
  "(string \<Rightarrow> BlockRef \<Rightarrow> nat \<Rightarrow> u8 list \<Rightarrow> u8 list) \<Rightarrow> (u8 list \<Rightarrow> bool) \<Rightarrow> FSDevice
     \<Rightarrow> string \<Rightarrow> u8 list \<Rightarrow> nat option \<Rightarrow> nat \<Rightarrow> (bool \<times> FSDevice) option" where
  "makeFileLoop dirInit isEmpty dev name buf ptr i =
     (case ptr of
        None \<Rightarrow> Some (True, dev)
      | Some p \<Rightarrow>
          if \<not> i < 144 then Some (True, dev)
          else if isEmpty (entryBytes dev (p, i mod 8))
          then makeFileEntry dirInit dev name (p, i mod 8) buf
          else makeFileLoop dirInit isEmpty dev name buf
                 (if i mod 8 = 7 then nextBlockPtr dev ptr else ptr) (i + 1))"
  by pat_completeness auto
termination
  by (relation "measure (\<lambda>(dirInit, isEmpty, dev, name, buf, ptr, i). 144 - i)") auto

declare makeFileLoop.simps [simp del]

definition makeFile ::
  "(string \<Rightarrow> BlockRef \<Rightarrow> nat \<Rightarrow> u8 list \<Rightarrow> u8 list) \<Rightarrow> (u8 list \<Rightarrow> bool) \<Rightarrow> FSDevice
     \<Rightarrow> string \<Rightarrow> u8 list \<Rightarrow> (bool \<times> FSDevice) option" where
  "makeFile dirInit isEmpty dev name buf =
     makeFileLoop dirInit isEmpty dev name buf (blockPtrTS dev 18 1) 0"

text \<open>
  The payload area of a list of blocks: the bytes after the two link bytes of each
  block, one block after the other.
\<close>

definition payload :: "FSDevice \<Rightarrow> nat list \<Rightarrow> u8 list" where
  "payload dev bs = concat (map (\<lambda>b. drop 2 (data (blocks dev ! b))) bs)"

text \<open>
  The state of the write loop of \<open>makeFile\<close> before it writes byte \<open>i\<close>, for the
  blocks \<open>bs\<close> of the block list: the iterator, the pointer and the offset.
\<close>

definition writeState :: "nat list \<Rightarrow> FSDevice \<Rightarrow> nat \<Rightarrow> FSDevice \<times> nat \<times> nat option \<times> nat" where
  "writeState bs dev i =
     (if i = 0 then (dev, 0, Some (bs ! 0), 2)
      else (dev, (i - 1) div 254, Some (bs ! ((i - 1) div 254)), 3 + (i - 1) mod 254))"

text \<open>
  Modelled from the spec: no function of the sources reads a file back. By the spec
  the first two bytes of a block link to the next block, the link (0,0) ends the
  chain, and the remaining 254 bytes carry payload. \<open>readChain\<close> collects the payload
  bytes of at most \<open>k\<close> blocks along the links; \<open>readFile\<close> allows as many blocks as
  the device has.
\<close>

definition linkAt :: "FSDevice \<Rightarrow> nat \<Rightarrow> BlockRef" where
  "linkAt dev p = (unat (data (blocks dev ! p) ! 0), unat (data (blocks dev ! p) ! 1))"

fun readChain :: "FSDevice \<Rightarrow> nat \<Rightarrow> BlockRef \<Rightarrow> u8 list" where
  "readChain dev 0 ref = []"
| "readChain dev (Suc k) ref =
     (if ref = (0, 0) then []
      else case blockPtrRef dev ref of
             None \<Rightarrow> []
           | Some p \<Rightarrow> drop 2 (data (blocks dev ! p)) @ readChain dev k (linkAt dev p))"

definition readFile :: "FSDevice \<Rightarrow> BlockRef \<Rightarrow> u8 list" where
  "readFile dev ref = readChain dev (length (blocks dev)) ref"

text \<open>
  The directory as the loop of \<open>scanDirectory\<close> walks it: the chain of at most \<open>k\<close>
  blocks that starts at a pointer and follows the links, and the entries of these
  blocks, eight per block, in the order of the walk. 18 blocks hold 144 entries.
\<close>

fun dirChain :: "FSDevice \<Rightarrow> nat option \<Rightarrow> nat \<Rightarrow> nat list" where
  "dirChain dev None k = []"
| "dirChain dev (Some p) 0 = []"
| "dirChain dev (Some p) (Suc k) = p # dirChain dev (nextBlockPtr dev (Some p)) k"

definition blockSlots :: "nat \<Rightarrow> FSDirEntryPtr list" where
  "blockSlots p = map (Pair p) [0..<8]"

definition dirSlots :: "FSDevice \<Rightarrow> FSDirEntryPtr list" where
  "dirSlots dev = concat (map blockSlots (dirChain dev (blockPtrTS dev 18 1) 18))"

text \<open>
  The entries that the loop of \<open>scanDirectory\<close> has still to visit when it is at
  entry \<open>i\<close> of the walk with the block pointer \<open>ptr\<close>.
\<close>

definition slotsFrom :: "FSDevice \<Rightarrow> nat option \<Rightarrow> nat \<Rightarrow> FSDirEntryPtr list" where
  "slotsFrom dev ptr i =
     (case ptr of
        None \<Rightarrow> []
      | Some p \<Rightarrow>
          if \<not> i < 144 then []
          else map (Pair p) [i mod 8..<8]
               @ concat (map blockSlots (dirChain dev (nextBlockPtr dev (Some p)) (17 - i div 8))))"

subsection \<open>The layout of a single-sided, single-density disk\<close>

text \<open>
  Modelled from the spec: \<open>FSDeviceDescriptor\<close> is missing from the sources. The spec
  gives a single-sided, single-density disk 683 blocks on 35 tracks, numbered from 1,
  with 21 sectors on tracks 1 to 17, 19 on tracks 18 to 24, 18 on tracks 25 to 30 and
  17 from track 31 on, and has the blocks numbered in the order of track and sector.
\<close>

definition numSectors :: "nat \<Rightarrow> nat" where
  "numSectors t =
     (if t = 0 then 0 else if t \<le> 17 then 21 else if t \<le> 24 then 19
      else if t \<le> 30 then 18 else 17)"

definition d64_isTrackSectorPair :: "nat \<Rightarrow> nat \<Rightarrow> bool" where
  "d64_isTrackSectorPair t s = (1 \<le> t \<and> t \<le> 35 \<and> s < numSectors t)"

definition blocksBefore :: "nat \<Rightarrow> nat" where
  "blocksBefore t = sum_list (map numSectors [1..<t])"

text \<open>
  Modelled from the spec: a link (0,0) ends a chain, so a pair that is no track and
  sector of the disk names no block; it gets the number \<open>2 ^ 32 - 1\<close>, which is the
  number of no block of a device.
\<close>

definition d64_translateBlockNr :: "nat \<Rightarrow> nat \<Rightarrow> nat" where
  "d64_translateBlockNr t s =
     (if d64_isTrackSectorPair t s then blocksBefore t + s else 2 ^ 32 - 1)"

definition d64_translateBlockNrTS :: "nat \<Rightarrow> nat \<times> nat" where
  "d64_translateBlockNrTS b =
     (case find (\<lambda>t. b < blocksBefore (t + 1)) [1..<36] of
        Some t \<Rightarrow> (t, b - blocksBefore t)
      | None \<Rightarrow> (0, 0))"

text \<open>
  Modelled from the spec: the next block after sector \<open>s\<close> of track \<open>t\<close> is sector
  \<open>(s + interleave) mod sectorsPerTrack(t)\<close> of the same track, with the interleave
  10 for data and 3 for the directory track 18. A track is exhausted when this
  leads back to sector 0; then the walk moves from track 17 downward, after track 1
  to track 19 and from there upward, and never onto track 18. On the directory track
  and after the last track there is no next block: the flag is false and the outputs
  keep the values that were passed in.
\<close>

definition d64_nextTrackAndSector :: "nat \<Rightarrow> nat \<Rightarrow> bool \<times> nat \<times> nat" where
  "d64_nextTrackAndSector t s =
     (if t = 18 then
        (let s' = (s + 3) mod numSectors 18
         in if s' = 0 then (False, t, s) else (True, 18, s'))
      else
        (let s' = (s + 10) mod numSectors t
         in if s' \<noteq> 0 then (True, t, s')
            else if 1 < t \<and> t \<le> 17 then (True, t - 1, 0)
            else if t = 1 then (True, 19, 0)
            else if t < 35 then (True, t + 1, 0)
            else (False, t, s)))"

definition d64_nextBlockRef :: "BlockRef \<Rightarrow> BlockRef" where
  "d64_nextBlockRef ref =
     (case d64_nextTrackAndSector (fst ref) (snd ref) of
        (ok, t, s) \<Rightarrow> if ok then (t, s) else (0, 0))"

definition layout_SS_SD :: FSDeviceDescriptor where
  "layout_SS_SD =
     \<lparr>numBlocks = 683,
      isTrackSectorPair = d64_isTrackSectorPair,
      isValidRef = (\<lambda>ref. d64_isTrackSectorPair (fst ref) (snd ref)),
      translateBlockNr = d64_translateBlockNr,
      translateBlockNrTS = d64_translateBlockNrTS,
      nextTrackAndSector = d64_nextTrackAndSector,
      nextBlockRef = d64_nextBlockRef\<rparr>"

text \<open>A reference to a block of the disk that is not on the directory track 18.\<close>

definition dataRef :: "BlockRef \<Rightarrow> bool" where
  "dataRef r = (d64_isTrackSectorPair (fst r) (snd r) \<and> fst r \<noteq> 18)"

subsection \<open>A formatted disk and its directory entries\<close>

text \<open>
  Modelled from the spec: the code that writes the BAM of an empty disk is missing
  from the sources (\<open>makeWithFormat\<close> of the sources creates the blocks only). By the
  spec the block at (18,0) of a formatted disk links to (18,1), the first directory
  sector, and marks all sectors free: for each track the count of its sectors and a
  bitmap with one bit set per sector. All other bytes are zero.
\<close>

definition bamEntry :: "nat \<Rightarrow> u8 list" where
  "bamEntry t =
     (let bits = 2 ^ numSectors t - 1
      in [of_nat (numSectors t), of_nat (bits mod 256), of_nat (bits div 256 mod 256),
          of_nat (bits div 65536)])"

definition freshBam :: "u8 list" where
  "freshBam = [18, 1, 0, 0] @ concat (map bamEntry [1..<36]) @ replicate 112 0"

definition freshDisk :: FSDevice where
  "freshDisk = setData (makeWithFormat layout_SS_SD) 357 freshBam"

text \<open>
  Modelled from the spec: \<open>FSDirEntry\<close> and its \<open>init\<close> are missing from the sources.
  The spec has \<open>init\<close> fill the entry with the file type PRG, the first track and
  sector, the name padded with \<open>0xA0\<close> and the block count, low byte first. The
  fields are placed as on a D64 disk: the type (\<open>0x82\<close>) at byte 2, the first track
  and sector at bytes 3 and 4, the 16 bytes of the name from byte 5, the block count
  at bytes 30 and 31.
\<close>

definition padName :: "string \<Rightarrow> u8 list" where
  "padName name =
     map (\<lambda>c. of_nat (of_char c)) (take 16 name) @ replicate (16 - length name) 0xA0"

definition dirInitD64 :: "string \<Rightarrow> BlockRef \<Rightarrow> nat \<Rightarrow> u8 list \<Rightarrow> u8 list" where
  "dirInitD64 name ref n e =
     take 2 e @ [0x82, of_nat (fst ref), of_nat (snd ref)] @ padName name
     @ take 9 (drop 21 e) @ [of_nat (n mod 256), of_nat (n div 256)]"

definition firstDataRef :: "u8 list \<Rightarrow> BlockRef" where
  "firstDataRef e = (unat (e ! 3), unat (e ! 4))"

definition fileSize :: "u8 list \<Rightarrow> nat" where
  "fileSize e = unat (e ! 30) + 256 * unat (e ! 31)"

text \<open>
  The number of blocks that \<open>makeFile\<close> computes for a payload, \<open>(cnt + 253) / 254\<close>,
  and the references that \<open>allocate\<close> goes through for that many blocks from (1,0).
\<close>

definition numBlocksOf :: "u8 list \<Rightarrow> nat" where
  "numBlocksOf buf = (length buf + 253) div 254"

definition fileChain :: "u8 list \<Rightarrow> BlockRef list" where
  "fileChain buf = walk layout_SS_SD (1, 0) (numBlocksOf buf)"

text \<open>
  Modelled from the spec: reading back the files of a disk. The directory is scanned,
  hidden entries included, and for each entry the chain is read that starts at the
  first track and sector of the entry.
\<close>

definition readFiles :: "(u8 list \<Rightarrow> bool) \<Rightarrow> FSDevice \<Rightarrow> u8 list list" where
  "readFiles isEmpty dev =
     map (\<lambda>e. readFile dev (firstDataRef (entryBytes dev e)))
       (scanDirectory isEmpty (\<lambda>e. False) dev False)"

subsection \<open>Example disks\<close>

text \<open>
  An instance of the parameter \<open>isEmpty\<close>: an entry is empty when all its bytes are
  zero.
\<close>

definition isEmptyZero :: "u8 list \<Rightarrow> bool" where
  "isEmptyZero e = list_all (\<lambda>b. b = 0) e"

text \<open>
  A directory entry that is not empty (its third byte is \<open>0x82\<close>), and a disk whose
  first directory block holds such an entry, then an empty entry, then such an
  entry again; every other byte of the disk is zero.
\<close>

definition someEntry :: "u8 list" where
  "someEntry = [0, 0, 0x82] @ replicate 29 0"

definition gapDisk :: FSDevice where
  "gapDisk =
     setData (makeWithFormat layout_SS_SD) 358
       (someEntry @ replicate 32 0 @ someEntry @ replicate 160 0)"

section \<open>The flash ROM (FlashRom.h)\<close>












section \<open>The emulator (C64.h and the hardware component base class)\<close>

datatype EmulatorState = EMULATOR_STATE_OFF | EMULATOR_STATE_PAUSED | EMULATOR_STATE_RUNNING

text \<open>
  The fields of \<open>C64\<close> and of its base class \<open>HardwareComponent\<close> that the properties
  below are about. \<open>long\<close> is a signed 64-bit number: a 64-bit word, read as
  two's complement by \<open>sint\<close>. \<open>LONG_MAX\<close> is not negative, so halving it is the
  division of the word. \<open>history\<close> is not a field of the source: it records the
  states the component has entered, in order.
\<close>

record C64 =
  emuState :: EmulatorState
  history :: "EmulatorState list"
  stopFlag :: bool
  takeAutoSnapshots :: bool
  autoSnapshotInterval :: "64 word"


definition requestStop :: "C64 \<Rightarrow> C64" where
  "requestStop c = c\<lparr>stopFlag := True\<rparr>"





text \<open>
  Modelled from the spec: the bodies of \<open>powerOn\<close>, \<open>powerOff\<close>, \<open>run\<close> and \<open>pause\<close>
  are missing from the sources. The tables in the header of \<open>HardwareComponent\<close> and
  the transition table of the spec give, for each state, the next state and the
  calls made on the way: \<open>powerOff\<close> on a running component calls \<open>pause()\<close> first,
  \<open>run\<close> on a component that is off calls \<open>powerOn()\<close> first.
\<close>

definition enter :: "C64 \<Rightarrow> EmulatorState \<Rightarrow> C64" where
  "enter c st = c\<lparr>emuState := st, history := history c @ [st]\<rparr>"

definition powerOn :: "C64 \<Rightarrow> C64" where
  "powerOn c = (if emuState c = EMULATOR_STATE_OFF then enter c EMULATOR_STATE_PAUSED else c)"

definition pause :: "C64 \<Rightarrow> C64" where
  "pause c = (if emuState c = EMULATOR_STATE_RUNNING then enter c EMULATOR_STATE_PAUSED else c)"

definition powerOff :: "C64 \<Rightarrow> C64" where
  "powerOff c =
     (if emuState c = EMULATOR_STATE_OFF then c else enter (pause c) EMULATOR_STATE_OFF)"

definition run :: "C64 \<Rightarrow> C64" where
  "run c =
     (if emuState c = EMULATOR_STATE_RUNNING then c else enter (powerOn c) EMULATOR_STATE_RUNNING)"

datatype Event = PowerOn | PowerOff | Run | Pause | RequestStop

fun event :: "C64 \<Rightarrow> Event \<Rightarrow> C64" where
  "event c PowerOn = powerOn c"
| "event c PowerOff = powerOff c"
| "event c Run = run c"
| "event c Pause = pause c"
| "event c RequestStop = requestStop c"

text \<open>
  A disk whose BAM marks one block free, sector 0 of track 1 (the count of track 1 is
  1 and bit 0 of its first bitmap byte is set); every other byte is zero, so every
  other block is allocated.
\<close>

definition oneFreeDisk :: FSDevice where
  "oneFreeDisk = setData (makeWithFormat layout_SS_SD) 357 ([0, 0, 0, 0, 1, 1] @ replicate 250 0)"


definition c3 :: C64 where
  "c3 = \<lparr>emuState = EMULATOR_STATE_RUNNING, history = [], stopFlag = False,
          takeAutoSnapshots = True, autoSnapshotInterval = 3\<rparr>"



section \<open>Properties\<close>

subsection \<open>Loops and 32-bit arithmetic\<close>

lemma forM_append:
  "forM (xs @ ys) f x = (case forM xs f x of None \<Rightarrow> None | Some y \<Rightarrow> forM ys f y)"
  by (induction xs arbitrary: x) (auto split: option.splits)

lemma importStep_ok:
  assumes "i < length bs" "i * 256 + 256 \<le> length src" "i * 256 < 2 ^ 32"
  shows "importStep src i bs = Some (bs[i := importBlock (bs ! i) (drop (i * 256) src)])"
proof -
  have "u32 (i * 256) = i * 256" using assms(3) by (simp add: u32_def)
  then show ?thesis using assms(1,2) by (simp add: importStep_def)
qed

lemma importLoop:
  assumes "n \<le> length bs" "n * 256 \<le> length src" "length src < 2 ^ 32"
  shows "forM [0..<n] (importStep src) bs
       = Some (map (\<lambda>i. importBlock (bs ! i) (drop (i * 256) src)) [0..<n] @ drop n bs)"
  using assms(1,2)
proof (induction n)
  case 0
  show ?case by simp
next
  case (Suc n)
  let ?f = "\<lambda>i. importBlock (bs ! i) (drop (i * 256) src)"
  let ?bs' = "map ?f [0..<n] @ drop n bs"
  have n: "n < length bs" "n * 256 + 256 \<le> length src" using Suc.prems by simp_all
  have IH: "forM [0..<n] (importStep src) bs = Some ?bs'"
    using Suc.IH n by simp
  have lt: "n * 256 < 2 ^ 32" using n(2) assms(3) by linarith
  have nth: "?bs' ! n = bs ! n" "n < length ?bs'"
    using n(1) by (simp_all add: nth_append)
  have step: "importStep src n ?bs' = Some (?bs'[n := ?f n])"
    using importStep_ok [OF nth(2) n(2) lt] nth(1) by simp
  have "drop n bs = bs ! n # drop (Suc n) bs"
    using n(1) by (simp add: Cons_nth_drop_Suc)
  then have upd: "?bs'[n := ?f n] = map ?f [0..<Suc n] @ drop (Suc n) bs"
    by (simp add: list_update_append)
  have "forM [0..<Suc n] (importStep src) bs = forM ([0..<n] @ [n]) (importStep src) bs"
    by simp
  also have "\<dots> = Some (?bs'[n := ?f n])"
    unfolding forM_append IH using step by simp
  finally show ?case using upd by simp
qed


lemma u32_sub_ge:
  assumes "b \<le> a" "a < 2 ^ 32"
  shows "u32_sub a b = a - b"
proof -
  have "int a - int b = int (a - b)" using assms(1) by simp
  moreover have "int (a - b) < 2 ^ 32" using assms(2) by simp
  moreover have "0 \<le> int (a - b)" by simp
  ultimately have "(int a - int b) mod 2 ^ 32 = int (a - b)" by (simp only: mod_pos_pos_trivial)
  then show ?thesis by (simp only: u32_sub_def nat_int)
qed

lemma u32_id: "n < 2 ^ 32 \<Longrightarrow> u32 n = n"
  by (simp only: u32_def mod_less)

lemma concat_chunks:
  "concat (map (\<lambda>i. take k (drop (i * k) xs)) [0..<n]) = take (n * k) xs"
proof (induction n)
  case 0
  show ?case by simp
next
  case (Suc n)
  have "take (n * k + k) xs = take (n * k) xs @ take k (drop (n * k) xs)"
    by (rule take_add)
  then have "take (Suc n * k) xs = take (n * k) xs @ take k (drop (n * k) xs)"
    by (simp only: mult_Suc add.commute)
  with Suc show ?case by simp
qed

lemma exportStep_ok:
  assumes "i < length (blocks dev)" "i * 256 + 256 \<le> length d" "length d < 2 ^ 32"
  shows "exportStep dev 0 i d
       = Some (take (i * 256) d @ take 256 (data (blocks dev ! i)) @ drop (i * 256 + 256) d)"
proof -
  have "i * 256 < 2 ^ 32" "i < 2 ^ 32" using assms(2,3) by linarith+
  then have "u32 (i * 256) = i * 256" "u32 i = i" by (simp_all add: u32_def)
  then show ?thesis using assms(1,2) by (simp add: exportStep_def exportBlock_def Let_def)
qed

lemma exportLoop:
  assumes "n \<le> length (blocks dev)" "n * 256 \<le> length d" "length d < 2 ^ 32"
    and len: "\<And>i. i < length (blocks dev) \<Longrightarrow> length (data (blocks dev ! i)) = 256"
  shows "forM [0..<n] (exportStep dev 0) d
       = Some (concat (map (\<lambda>i. data (blocks dev ! i)) [0..<n]) @ drop (n * 256) d)"
  using assms(1,2)
proof (induction n)
  case 0
  show ?case by simp
next
  case (Suc n)
  let ?c = "concat (map (\<lambda>i. data (blocks dev ! i)) [0..<n])"
  let ?d' = "?c @ drop (n * 256) d"
  have n: "n < length (blocks dev)" "n * 256 + 256 \<le> length d" using Suc.prems by simp_all
  have IH: "forM [0..<n] (exportStep dev 0) d = Some ?d'"
    using Suc.IH n by simp
  have lenc: "length ?c = n * 256"
    using n(1)
  proof (induction n)
    case 0
    show ?case by simp
  next
    case (Suc m)
    then show ?case using len [of m] by simp
  qed
  have lend: "length ?d' = length d" "n * 256 + 256 \<le> length ?d'"
    using lenc n(2) by simp_all
  have "length ?d' < 2 ^ 32" using lend(1) assms(3) by simp
  from exportStep_ok [OF n(1) lend(2) this]
  have step: "exportStep dev 0 n ?d' = Some (?c @ data (blocks dev ! n) @ drop (Suc n * 256) d)"
    using lenc len [OF n(1)] by (simp add: add.commute)
  have "forM [0..<Suc n] (exportStep dev 0) d = forM ([0..<n] @ [n]) (exportStep dev 0) d"
    by simp
  also have "\<dots> = Some (?c @ data (blocks dev ! n) @ drop (Suc n * 256) d)"
    unfolding forM_append IH using step by simp
  finally show ?case by simp
qed

lemma importVolume_ok:
  assumes nb: "length (blocks dev) = numBlocks (layout dev)"
    and small: "numBlocks (layout dev) < 2 ^ 24"
    and len: "length bytes = numBlocks (layout dev) * 256"
  shows "importVolume dev bytes e
       = Some (True,
               dev\<lparr>blocks := map (\<lambda>i. importBlock (blocks dev ! i) (drop (i * 256) bytes))
                                [0..<numBlocks (layout dev)]\<rparr>,
               setError e FS_OK)"
proof -
  let ?n = "numBlocks (layout dev)"
  let ?f = "\<lambda>i. importBlock (blocks dev ! i) (drop (i * 256) bytes)"
  have lt: "length bytes < 2 ^ 32" using small len by simp
  have "forM [0..<?n] (importStep bytes) (blocks dev)
      = Some (map ?f [0..<?n] @ drop ?n (blocks dev))"
    using importLoop [of ?n "blocks dev" bytes] nb len lt by simp
  then show ?thesis
    using nb len by (simp add: importVolume_def)
qed


subsection \<open>Queries by block number\<close>

text \<open>
  C10, as the claim states it: every query that takes a linear block number is
  defined for every 32-bit number. On a disk of 683 blocks \<open>readByte\<close> and
  \<open>isFree\<close> stop in a failed assertion for the block number 683, and
  \<open>check(blockNr, pos, expected, strict)\<close> reads \<open>blocks[683]\<close>, which is outside
  the vector.
\<close>

theorem block_queries_partial_counterexample:
  "readByte (makeWithFormat layout_SS_SD) 683 0 = None
   \<and> isFreeB (makeWithFormat layout_SS_SD) 683 = None
   \<and> checkAt (\<lambda>b pos strict. FS_OK) (makeWithFormat layout_SS_SD) 683 0 True = None"
  by (simp add: readByte_def isFreeB_def locateAllocationBitB_def checkAt_def
      makeWithFormat_def layout_SS_SD_def)

text \<open>
  C10, amended. The four queries \<open>blockPtr\<close>, \<open>blockType\<close>, \<open>itemType\<close> and
  \<open>getCorrupted\<close> are defined for every 32-bit number: for a number that is not
  below the number of blocks, \<open>blockPtr\<close> is the null pointer, \<open>blockType\<close> is
  \<open>FS_UNKNOWN_BLOCK\<close>, \<open>itemType\<close> is \<open>FSI_UNUSED\<close> and \<open>getCorrupted\<close> is 0. The
  queries are functions of the device and return no new device, so the device is as
  it was.
\<close>

theorem block_queries_total:
  assumes "length (blocks dev) \<le> unat n"
  shows "blockPtr dev (unat n) = None
       \<and> blockType typeOf dev n = FS_UNKNOWN_BLOCK
       \<and> itemType itemTypeOf dev n pos = FSI_UNUSED
       \<and> getCorrupted dev n = 0"
  using assms by (simp add: blockPtr_def blockType_def itemType_def getCorrupted_def)

theorem block_queries_total_witness:
  "blockPtr (makeWithFormat layout_SS_SD) (unat (683 :: 32 word)) = None
   \<and> blockType (\<lambda>b. FS_KNOWN_BLOCK 1) (makeWithFormat layout_SS_SD) 683 = FS_UNKNOWN_BLOCK
   \<and> itemType (\<lambda>b p. FSI_USED 1) (makeWithFormat layout_SS_SD) 683 0 = FSI_UNUSED
   \<and> getCorrupted (makeWithFormat layout_SS_SD) 683 = 0"
  using block_queries_total
    [where dev = "makeWithFormat layout_SS_SD" and n = 683
       and typeOf = "\<lambda>b. FS_KNOWN_BLOCK 1" and itemTypeOf = "\<lambda>b p. FSI_USED 1" and pos = 0]
  by (simp add: makeWithFormat_def layout_SS_SD_def)


subsection \<open>Importing a volume\<close>

text \<open>
  C5. On a device that has the blocks of its layout (fewer than \<open>2 ^ 24\<close>, so that
  the 32-bit offsets do not wrap): for a buffer whose length is not
  \<open>numBlocks * 256\<close>, \<open>importVolume\<close> returns false, writes \<open>FS_WRONG_CAPACITY\<close> to
  the error output (when one is passed) and leaves the device as it was; for a buffer
  of that length it returns true and writes \<open>FS_OK\<close>.
\<close>

theorem importVolume_capacity:
  assumes "length (blocks dev) = numBlocks (layout dev)"
    and "numBlocks (layout dev) < 2 ^ 24"
  shows "(length src \<noteq> numBlocks (layout dev) * 256 \<longrightarrow>
            importVolume dev src (Some e) = Some (False, dev, Some FS_WRONG_CAPACITY)
          \<and> importVolume dev src None = Some (False, dev, None))
       \<and> (length src = numBlocks (layout dev) * 256 \<longrightarrow>
            (\<exists>dev'. importVolume dev src (Some e) = Some (True, dev', Some FS_OK))
          \<and> (\<exists>dev'. importVolume dev src None = Some (True, dev', None)))"
proof (intro conjI impI)
  assume "length src \<noteq> numBlocks (layout dev) * 256"
  then show "importVolume dev src (Some e) = Some (False, dev, Some FS_WRONG_CAPACITY)"
    and "importVolume dev src None = Some (False, dev, None)"
    using assms(1) by (simp_all add: importVolume_def setError_def)
next
  assume len: "length src = numBlocks (layout dev) * 256"
  show "\<exists>dev'. importVolume dev src (Some e) = Some (True, dev', Some FS_OK)"
    using importVolume_ok [OF assms len, of "Some e"] by (simp add: setError_def)
  show "\<exists>dev'. importVolume dev src None = Some (True, dev', None)"
    using importVolume_ok [OF assms len, of None] by (simp add: setError_def)
qed

theorem importVolume_capacity_witness:
  "importVolume (makeWithFormat layout_SS_SD) [1, 2, 3] (Some FS_OK)
     = Some (False, makeWithFormat layout_SS_SD, Some FS_WRONG_CAPACITY)
   \<and> (\<exists>dev'. importVolume (makeWithFormat layout_SS_SD) (replicate (683 * 256) 7) (Some FS_OK)
                = Some (True, dev', Some FS_OK))"
  using importVolume_capacity
    [where dev = "makeWithFormat layout_SS_SD" and e = FS_OK and src = "[1, 2, 3]"]
    importVolume_capacity
    [where dev = "makeWithFormat layout_SS_SD" and e = FS_OK
       and src = "replicate (683 * 256) 7"]
  by (simp add: makeWithFormat_def layout_SS_SD_def)

subsection \<open>Export after import\<close>

text \<open>
  C1. On a device that has the blocks of its layout (at least one and fewer than
  \<open>2 ^ 24\<close>): for every byte vector of length \<open>numBlocks * 256\<close>, \<open>importVolume\<close>
  succeeds, and \<open>exportVolume\<close> of the device it leaves, into any buffer of the same
  size, succeeds and fills the buffer with exactly the imported bytes.
\<close>

theorem export_import_identity:
  assumes nb: "length (blocks dev) = numBlocks (layout dev)"
    and pos: "0 < numBlocks (layout dev)"
    and small: "numBlocks (layout dev) < 2 ^ 24"
    and len: "length bytes = numBlocks (layout dev) * 256"
    and dst: "length dst = length bytes"
  shows "\<exists>dev'. importVolume dev bytes e1 = Some (True, dev', setError e1 FS_OK)
           \<and> exportVolume dev' dst e2 = Some (True, bytes, setError e2 FS_OK)"
proof -
  let ?n = "numBlocks (layout dev)"
  let ?f = "\<lambda>i. importBlock (blocks dev ! i) (drop (i * 256) bytes)"
  let ?bs = "map ?f [0..<?n]"
  let ?dev' = "dev\<lparr>blocks := ?bs\<rparr>"
  have lt: "length bytes < 2 ^ 32" using small len by simp
  have "forM [0..<?n] (importStep bytes) (blocks dev) = Some (?bs @ drop ?n (blocks dev))"
    using importLoop [of ?n "blocks dev" bytes] nb len lt by simp
  then have imp: "importVolume dev bytes e1 = Some (True, ?dev', setError e1 FS_OK)"
    using nb len by (simp add: importVolume_def)
  have dlen: "\<And>i. i < length (blocks ?dev') \<Longrightarrow> length (data (blocks ?dev' ! i)) = 256"
  proof -
    fix i assume "i < length (blocks ?dev')"
    then have i: "i < ?n" by simp
    then have "i * 256 + 256 \<le> length bytes" using len by simp
    then show "length (data (blocks ?dev' ! i)) = 256"
      using i by (simp add: importBlock_def)
  qed
  have cc: "concat (map (\<lambda>i. data (blocks ?dev' ! i)) [0..<?n]) = bytes"
  proof -
    have "map (\<lambda>i. data (blocks ?dev' ! i)) [0..<?n]
        = map (\<lambda>i. take 256 (drop (i * 256) bytes)) [0..<?n]"
      by (rule map_cong [OF refl]) (simp add: importBlock_def)
    then show ?thesis using concat_chunks [of 256 bytes ?n] len by (simp del: map_eq_conv)
  qed
  let ?z = "replicate (length dst) (0::u8)"
  have "forM [0..<?n] (exportStep ?dev' 0) ?z
      = Some (concat (map (\<lambda>i. data (blocks ?dev' ! i)) [0..<?n]) @ drop (?n * 256) ?z)"
    by (rule exportLoop) (use len dst lt dlen in simp_all)
  then have loop: "forM [0..<?n] (exportStep ?dev' 0) ?z = Some bytes"
    using cc len dst by simp
  have n32: "?n < 2 ^ 32" "?n - 1 < 2 ^ 32" using small by simp_all
  have lastb: "u32_sub ?n 1 = ?n - 1"
    by (rule u32_sub_ge) (use pos n32 in simp_all)
  have "u32_sub (?n - 1) 0 = ?n - 1 - 0"
    by (rule u32_sub_ge) (use n32 in simp_all)
  then have "u32_sub (?n - 1) 0 + 1 = ?n" using pos by simp
  then have cnt: "u32 (u32_sub (?n - 1) 0 + 1) = ?n"
    using u32_id [OF n32(1)] by simp
  have cnt2: "u32 (?n * 256) = ?n * 256"
    by (rule u32_id) (use len lt in simp)
  have "exportBlocks ?dev' 0 (?n - 1) dst e2 = Some (True, bytes, setError e2 FS_OK)"
    unfolding exportBlocks_def cnt Let_def cnt2
    using pos loop len dst by simp
  then have "exportVolume ?dev' dst e2 = Some (True, bytes, setError e2 FS_OK)"
    using lastb by (simp add: exportVolume_def)
  with imp show ?thesis by blast
qed


theorem export_import_identity_witness:
  "\<exists>dev'. importVolume (makeWithFormat layout_SS_SD) (replicate (683 * 256) 7) None
             = Some (True, dev', None)
         \<and> exportVolume dev' (replicate (683 * 256) 0) None
             = Some (True, replicate (683 * 256) 7, None)"
  using export_import_identity
    [where dev = "makeWithFormat layout_SS_SD" and bytes = "replicate (683 * 256) 7"
       and dst = "replicate (683 * 256) 0" and ?e1.0 = None and ?e2.0 = None]
  by (simp add: makeWithFormat_def layout_SS_SD_def setError_def)

subsection \<open>The free-sector counts of the BAM\<close>

lemma popcount_card: "popcount x = card {n. n < 8 \<and> bit x n}"
proof -
  have "length (filter (bit x) [0..<8]) = card ({n. bit x n} \<inter> set [0..<8])"
    by (rule distinct_length_filter) simp
  moreover have "{n. bit x n} \<inter> set [0..<8] = {n. n < 8 \<and> bit x n}" by auto
  ultimately show ?thesis by (simp add: popcount_def)
qed

lemma popcount_le: "popcount x \<le> 8"
proof -
  have "card {n. n < 8 \<and> bit x n} \<le> card {0..<8::nat}"
    by (rule card_mono) auto
  then show ?thesis by (simp add: popcount_card)
qed

lemma popcount_set_bit:
  assumes "n < 8" "\<not> bit x n"
  shows "popcount (set_bit n x) = Suc (popcount x)"
proof -
  have "{m. m < 8 \<and> bit (set_bit n x) m} = insert n {m. m < 8 \<and> bit x m}"
    using assms(1) by (auto simp: bit_set_bit_iff)
  moreover have "n \<notin> {m. m < 8 \<and> bit x m}" using assms(2) by simp
  moreover have "finite {m. m < 8 \<and> bit x m}" by simp
  ultimately show ?thesis by (simp add: popcount_card)
qed

lemma popcount_unset_bit:
  assumes "n < 8" "bit x n"
  shows "Suc (popcount (unset_bit n x)) = popcount x"
proof -
  let ?S = "{m. m < 8 \<and> bit x m}"
  have eq: "{m. m < 8 \<and> bit (unset_bit n x) m} = ?S - {n}"
    by (auto simp: bit_unset_bit_iff)
  have "n \<in> ?S" using assms by simp
  moreover have "finite ?S" by simp
  ultimately have "Suc (card (?S - {n})) = card ?S"
    by (rule card_Suc_Diff1 [rotated])
  then show ?thesis
    unfolding popcount_card eq .
qed


lemma u32_mod4: "u32 n mod 4 = n mod 4"
proof -
  have "(4::nat) dvd 2 ^ 32" by simp
  then show ?thesis unfolding u32_def by (rule mod_mod_cancel)
qed

lemma unat_inc: "unat (x :: u8) < 255 \<Longrightarrow> unat (x + 1) = Suc (unat x)"
  by (simp add: unat_word_ariths)

lemma unat_dec: "0 < unat (x :: u8) \<Longrightarrow> Suc (unat (x - 1)) = unat x"
  by (metis Suc_pred' unat_minus_one unat_eq_zero less_numeral_extra(3))

lemma markFree_nth:
  assumes "c = 4 * (byte div 4)" "c \<noteq> byte" "byte < length d" "c < length d"
  shows "markFree d byte bt ! i
       = (if i = c then d ! c + 1 else if i = byte then set_bit bt (d ! byte) else d ! i)"
    and "length (markFree d byte bt) = length d"
  unfolding markFree_def Let_def assms(1) [symmetric]
  using assms(2-4) by (simp_all add: nth_list_update)

lemma markUsed_nth:
  assumes "c = 4 * (byte div 4)" "c \<noteq> byte" "byte < length d" "c < length d"
  shows "markUsed d byte bt ! i
       = (if i = c then d ! c - 1 else if i = byte then unset_bit bt (d ! byte) else d ! i)"
    and "length (markUsed d byte bt) = length d"
  unfolding markUsed_def Let_def assms(1) [symmetric]
  using assms(2-4) by (simp_all add: nth_list_update)

lemma count_inc:
  assumes "unat (c :: u8) = p + q + r" "p \<le> 7" "q \<le> 8" "r \<le> 8"
  shows "unat (c + 1) = Suc p + q + r"
proof -
  have "unat c < 255" using assms by linarith
  then have "unat (c + 1) = Suc (unat c)" by (rule unat_inc)
  then show ?thesis using assms(1) by simp
qed

lemma count_dec:
  assumes "unat (c :: u8) = Suc p + q + r"
  shows "unat (c - 1) = p + q + r"
proof -
  have "0 < unat c" using assms by simp
  then have "Suc (unat (c - 1)) = unat c" by (rule unat_dec)
  then show ?thesis using assms by simp
qed

lemma countOk_markFree:
  assumes byte: "byte < length d" "byte mod 4 \<noteq> 0"
    and bt: "bt < 8" "\<not> bit (d ! byte) bt"
    and ok: "countOk d k"
  shows "countOk (markFree d byte bt) k"
proof -
  define q where "q = byte div 4"
  define r where "r = byte mod 4"
  define c where "c = 4 * q"
  define i0 where "i0 = 4 * k"
  define i1 where "i1 = 4 * k + 1"
  define i2 where "i2 = 4 * k + 2"
  define i3 where "i3 = 4 * k + 3"
  have qr: "byte = c + r" "0 < r" "r < 4"
    using byte(2) unfolding c_def q_def r_def by simp_all
  have c: "c \<noteq> byte" "c < length d"
    using byte(1) qr by simp_all
  have c4: "c = 4 * (byte div 4)" unfolding c_def q_def ..
  note nth = markFree_nth [OF c4 c(1) byte(1) c(2), of bt]
  have okd: "i3 < length d" "unat (d ! i0) = popcount (d ! i1) + popcount (d ! i2) + popcount (d ! i3)"
    using ok unfolding countOk_def i0_def i1_def i2_def i3_def by simp_all
  have sb: "popcount (set_bit bt (d ! byte)) = Suc (popcount (d ! byte))"
    by (rule popcount_set_bit [OF bt])
  then have le7: "popcount (d ! byte) \<le> 7"
    using popcount_le [of "set_bit bt (d ! byte)"] by simp
  have goal: "unat (markFree d byte bt ! i0)
      = popcount (markFree d byte bt ! i1) + popcount (markFree d byte bt ! i2)
        + popcount (markFree d byte bt ! i3)"
  proof (cases "k = q")
    case False
    then have "k < q \<or> q < k" by linarith
    then have "i0 \<noteq> c" "i1 \<noteq> c" "i2 \<noteq> c" "i3 \<noteq> c" "i0 \<noteq> byte" "i1 \<noteq> byte" "i2 \<noteq> byte" "i3 \<noteq> byte"
      using qr unfolding c_def i0_def i1_def i2_def i3_def by linarith+
    then show ?thesis using okd(2) by (simp add: nth(1))
  next
    case True
    then have i: "i0 = c" "i1 \<noteq> c" "i2 \<noteq> c" "i3 \<noteq> c" "i1 \<noteq> i2" "i1 \<noteq> i3" "i2 \<noteq> i3"
      unfolding c_def i0_def i1_def i2_def i3_def by simp_all
    have "byte = i1 \<or> byte = i2 \<or> byte = i3"
      using True qr unfolding c_def i1_def i2_def i3_def by linarith
    then consider "byte = i1" | "byte = i2" | "byte = i3" by blast
    then show ?thesis
    proof cases
      case 1
      have "unat (d ! c + 1) = Suc (popcount (d ! i1)) + popcount (d ! i2) + popcount (d ! i3)"
        by (rule count_inc) (use okd(2) i(1) le7 1 popcount_le in simp_all)
      then show ?thesis using i 1 [symmetric] sb by (simp add: nth(1))
    next
      case 2
      have "unat (d ! c + 1) = Suc (popcount (d ! i2)) + popcount (d ! i1) + popcount (d ! i3)"
        by (rule count_inc) (use okd(2) i(1) le7 2 popcount_le in simp_all)
      then show ?thesis using i 2 [symmetric] sb by (simp add: nth(1))
    next
      case 3
      have "unat (d ! c + 1) = Suc (popcount (d ! i3)) + popcount (d ! i1) + popcount (d ! i2)"
        by (rule count_inc) (use okd(2) i(1) le7 3 popcount_le in simp_all)
      then show ?thesis using i 3 [symmetric] sb by (simp add: nth(1))
    qed
  qed
  show ?thesis
    unfolding countOk_def
    using goal okd(1) nth(2) unfolding i0_def i1_def i2_def i3_def by simp
qed

lemma countOk_markUsed:
  assumes byte: "byte < length d" "byte mod 4 \<noteq> 0"
    and bt: "bt < 8" "bit (d ! byte) bt"
    and ok: "countOk d k"
  shows "countOk (markUsed d byte bt) k"
proof -
  define q where "q = byte div 4"
  define r where "r = byte mod 4"
  define c where "c = 4 * q"
  define i0 where "i0 = 4 * k"
  define i1 where "i1 = 4 * k + 1"
  define i2 where "i2 = 4 * k + 2"
  define i3 where "i3 = 4 * k + 3"
  have qr: "byte = c + r" "0 < r" "r < 4"
    using byte(2) unfolding c_def q_def r_def by simp_all
  have c: "c \<noteq> byte" "c < length d"
    using byte(1) qr by simp_all
  have c4: "c = 4 * (byte div 4)" unfolding c_def q_def ..
  note nth = markUsed_nth [OF c4 c(1) byte(1) c(2), of bt]
  have okd: "i3 < length d" "unat (d ! i0) = popcount (d ! i1) + popcount (d ! i2) + popcount (d ! i3)"
    using ok unfolding countOk_def i0_def i1_def i2_def i3_def by simp_all
  have sb: "Suc (popcount (unset_bit bt (d ! byte))) = popcount (d ! byte)"
    by (rule popcount_unset_bit [OF bt])
  have goal: "unat (markUsed d byte bt ! i0)
      = popcount (markUsed d byte bt ! i1) + popcount (markUsed d byte bt ! i2)
        + popcount (markUsed d byte bt ! i3)"
  proof (cases "k = q")
    case False
    then have "k < q \<or> q < k" by linarith
    then have "i0 \<noteq> c" "i1 \<noteq> c" "i2 \<noteq> c" "i3 \<noteq> c" "i0 \<noteq> byte" "i1 \<noteq> byte" "i2 \<noteq> byte" "i3 \<noteq> byte"
      using qr unfolding c_def i0_def i1_def i2_def i3_def by linarith+
    then show ?thesis using okd(2) by (simp add: nth(1))
  next
    case True
    then have i: "i0 = c" "i1 \<noteq> c" "i2 \<noteq> c" "i3 \<noteq> c" "i1 \<noteq> i2" "i1 \<noteq> i3" "i2 \<noteq> i3"
      unfolding c_def i0_def i1_def i2_def i3_def by simp_all
    have "byte = i1 \<or> byte = i2 \<or> byte = i3"
      using True qr unfolding c_def i1_def i2_def i3_def by linarith
    then consider "byte = i1" | "byte = i2" | "byte = i3" by blast
    then show ?thesis
    proof cases
      case 1
      have "unat (d ! c - 1)
          = popcount (unset_bit bt (d ! i1)) + popcount (d ! i2) + popcount (d ! i3)"
        by (rule count_dec) (use okd(2) i(1) 1 sb in simp)
      then show ?thesis using i 1 [symmetric] by (simp add: nth(1))
    next
      case 2
      have "unat (d ! c - 1)
          = popcount (unset_bit bt (d ! i2)) + popcount (d ! i1) + popcount (d ! i3)"
        by (rule count_dec) (use okd(2) i(1) 2 sb in simp)
      then show ?thesis using i 2 [symmetric] by (simp add: nth(1))
    next
      case 3
      have "unat (d ! c - 1)
          = popcount (unset_bit bt (d ! i3)) + popcount (d ! i1) + popcount (d ! i2)"
        by (rule count_dec) (use okd(2) i(1) 3 sb in simp)
      then show ?thesis using i 3 [symmetric] by (simp add: nth(1))
    qed
  qed
  show ?thesis
    unfolding countOk_def
    using goal okd(1) nth(2) unfolding i0_def i1_def i2_def i3_def by simp
qed


lemma setData_simps:
  "layout (setData dev p d) = layout dev"
  "length (blocks (setData dev p d)) = length (blocks dev)"
  "p < length (blocks dev) \<Longrightarrow> data (blocks (setData dev p d) ! p) = d"
  "q \<noteq> p \<Longrightarrow> blocks (setData dev p d) ! q = blocks dev ! q"
  by (simp_all add: setData_def)

lemma bamPtr_setData: "bamPtr (setData dev p d) = bamPtr dev"
  by (simp add: bamPtr_def blockPtrTS_def blockPtr_def setData_simps)

lemma bamPtr_less: "bamPtr dev = Some bam \<Longrightarrow> bam < length (blocks dev)"
  by (simp add: bamPtr_def blockPtrTS_def blockPtr_def split: if_splits)

lemma locate_mod4:
  assumes "s < 24"
  shows "u32 (4 * t + 1 + s div 8) mod 4 \<noteq> 0"
proof -
  define j where "j = s div 8"
  have j: "j < 3" using assms by (simp add: j_def)
  have "(4 * t + 1 + j) mod 4 = (1 + j + t * 4) mod 4" by (simp add: ac_simps)
  also have "\<dots> = (1 + j) mod 4" by (rule mod_mult_self1)
  also have "\<dots> = 1 + j" using j by simp
  finally show ?thesis unfolding j_def by (simp add: u32_mod4)
qed

lemma setAllocationBit_countOk:
  assumes sec: "\<And>t s. isTrackSectorPair (layout dev) t s \<Longrightarrow> s < 24"
    and run: "setAllocationBit dev t s v = Some dev'"
    and ok: "bamCountOk dev k"
  shows "bamCountOk dev' k \<and> layout dev' = layout dev"
proof -
  define byte where "byte = u32 (4 * t + 1 + s div 8)"
  define bt where "bt = s mod 8"
  have pair: "isTrackSectorPair (layout dev) t s"
    using run by (auto simp: setAllocationBit_def locateAllocationBit_def split: if_splits)
  then have loc: "locateAllocationBit dev t s = Some (byte, bt)"
    by (simp add: locateAllocationBit_def byte_def bt_def)
  obtain bam where bam: "bamPtr dev = Some bam"
    using ok by (auto simp: bamCountOk_def split: option.splits)
  define d where "d = data (blocks dev ! bam)"
  have "countOk d k" using ok bam by (simp add: bamCountOk_def d_def)
  have byte: "byte < length d"
    using run loc bam by (auto simp: setAllocationBit_def d_def Let_def split: if_splits)
  have m4: "byte mod 4 \<noteq> 0" unfolding byte_def by (rule locate_mod4) (rule sec [OF pair])
  have bt: "bt < 8" by (simp add: bt_def)
  define d2 where "d2 = (if v \<and> \<not> bit (d ! byte) bt then markFree d byte bt
      else if \<not> v \<and> bit (d ! byte) bt then markUsed d byte bt else d)"
  have dev': "dev' = setData dev bam d2"
    using run loc bam byte by (auto simp: setAllocationBit_def d_def d2_def Let_def)
  have "countOk d2 k"
    unfolding d2_def
    using countOk_markFree [OF byte m4 bt _ \<open>countOk d k\<close>]
      countOk_markUsed [OF byte m4 bt _ \<open>countOk d k\<close>] \<open>countOk d k\<close> by simp
  then show ?thesis
    unfolding dev' using bam bamPtr_less [OF bam]
    by (simp add: bamCountOk_def bamPtr_setData setData_simps)
qed

lemma applyBamOp_countOk:
  assumes sec: "\<And>t s. isTrackSectorPair (layout dev) t s \<Longrightarrow> s < 24"
    and run: "applyBamOp dev x = Some dev'"
    and ok: "bamCountOk dev k"
  shows "bamCountOk dev' k \<and> layout dev' = layout dev"
proof (cases x)
  case (SetAllocationBit t s v)
  then show ?thesis using setAllocationBit_countOk [OF sec _ ok] run by simp
next
  case (SetAllocationBitB b v)
  then show ?thesis using setAllocationBit_countOk [OF sec _ ok] run
    by (simp add: setAllocationBitB_def split: prod.splits)
next
  case (MarkAsAllocated t s)
  then show ?thesis using setAllocationBit_countOk [OF sec _ ok] run
    by (simp add: markAsAllocated_def)
next
  case (MarkAsFree t s)
  then show ?thesis using setAllocationBit_countOk [OF sec _ ok] run
    by (simp add: markAsFree_def)
qed


lemma layout_SS_SD_simps:
  "numBlocks layout_SS_SD = 683"
  "isTrackSectorPair layout_SS_SD = d64_isTrackSectorPair"
  "isValidRef layout_SS_SD = (\<lambda>ref. d64_isTrackSectorPair (fst ref) (snd ref))"
  "translateBlockNr layout_SS_SD = d64_translateBlockNr"
  "translateBlockNrTS layout_SS_SD = d64_translateBlockNrTS"
  "nextTrackAndSector layout_SS_SD = d64_nextTrackAndSector"
  "nextBlockRef layout_SS_SD = d64_nextBlockRef"
  by (simp_all add: layout_SS_SD_def)

lemma makeWithFormat_simps:
  "layout (makeWithFormat l) = l"
  "length (blocks (makeWithFormat l)) = numBlocks l"
  "i < numBlocks l \<Longrightarrow> blocks (makeWithFormat l) ! i = FSBlock_new i"
  by (simp_all add: makeWithFormat_def)

lemma FSBlock_new_simps:
  "length (data (FSBlock_new i)) = 256"
  "j < 256 \<Longrightarrow> data (FSBlock_new i) ! j = 0"
  by (simp_all add: FSBlock_new_def)

lemma d64_blockNr:
  "d64_translateBlockNr 18 0 = 357"
  "d64_translateBlockNr 18 1 = 358"
  "d64_translateBlockNr 1 0 = 0"
  "d64_translateBlockNr 1 10 = 10"
  "d64_translateBlockNr 18 (Suc 0) = 358"
  "d64_translateBlockNr (Suc 0) 0 = 0"
  "d64_translateBlockNr (Suc 0) 10 = 10"
  by code_simp+

lemma d64_sectors: "d64_isTrackSectorPair t s \<Longrightarrow> s < 24"
  by (simp add: d64_isTrackSectorPair_def numSectors_def split: if_splits)

lemma d64_bam: "bamPtr (makeWithFormat layout_SS_SD) = Some 357"
  by (simp add: bamPtr_def blockPtrTS_def blockPtr_def makeWithFormat_simps layout_SS_SD_simps
      d64_blockNr)

lemma popcount_0: "popcount 0 = 0"
  by (simp add: popcount_def)

lemma fresh_bamCountOk: "bamCountOk (makeWithFormat layout_SS_SD) 1"
  by (simp add: bamCountOk_def d64_bam countOk_def popcount_0 makeWithFormat_simps
      layout_SS_SD_simps FSBlock_new_simps)

lemma setAllocationBit_Some:
  assumes "isTrackSectorPair (layout dev) t s" "bamPtr dev = Some bam"
    and "u32 (4 * t + 1 + s div 8) < length (data (blocks dev ! bam))"
  shows "\<exists>dev'. setAllocationBit dev t s v = Some dev' \<and> layout dev' = layout dev
           \<and> bamPtr dev' = Some bam
           \<and> length (data (blocks dev' ! bam)) = length (data (blocks dev ! bam))"
proof -
  let ?byte = "u32 (4 * t + 1 + s div 8)"
  have bam: "bam < length (blocks dev)" by (rule bamPtr_less [OF assms(2)])
  have c: "4 * (?byte div 4) < length (data (blocks dev ! bam))"
    using assms(3) by simp
  have len: "length (markFree (data (blocks dev ! bam)) ?byte (s mod 8))
      = length (data (blocks dev ! bam))"
    "length (markUsed (data (blocks dev ! bam)) ?byte (s mod 8))
      = length (data (blocks dev ! bam))"
    by (simp_all add: markFree_def markUsed_def Let_def)
  show ?thesis
    using assms bam len
    by (simp add: setAllocationBit_def locateAllocationBit_def Let_def bamPtr_setData setData_simps)
qed

lemma bam_ops_run: "\<exists>dev'. applyBamOps (makeWithFormat layout_SS_SD)
             [MarkAsFree 1 0, SetAllocationBit 1 9 True, MarkAsAllocated 1 0] = Some dev'"
proof -
  let ?d0 = "makeWithFormat layout_SS_SD"
  have p: "d64_isTrackSectorPair 1 0" "d64_isTrackSectorPair 1 9"
    by (simp_all add: d64_isTrackSectorPair_def numSectors_def)
  have u: "u32 5 = 5" "u32 6 = 6" by (simp_all add: u32_def)
  have l0: "length (data (blocks ?d0 ! 357)) = 256"
    by (simp add: makeWithFormat_simps layout_SS_SD_simps FSBlock_new_simps)
  obtain d1 where d1: "setAllocationBit ?d0 1 0 True = Some d1" "layout d1 = layout_SS_SD"
      "bamPtr d1 = Some 357" "length (data (blocks d1 ! 357)) = 256"
    using setAllocationBit_Some [of ?d0 1 0 357 True] p u l0 d64_bam
    by (auto simp: makeWithFormat_simps layout_SS_SD_simps)
  obtain d2 where d2: "setAllocationBit d1 1 9 True = Some d2" "layout d2 = layout_SS_SD"
      "bamPtr d2 = Some 357" "length (data (blocks d2 ! 357)) = 256"
    using setAllocationBit_Some [of d1 1 9 357 True] p u d1
    by (auto simp: layout_SS_SD_simps)
  obtain d3 where d3: "setAllocationBit d2 1 0 False = Some d3"
    using setAllocationBit_Some [of d2 1 0 357 False] p u d2
    by (auto simp: layout_SS_SD_simps)
  show ?thesis
    using d1(1) d2(1) d3 by (simp add: markAsFree_def markAsAllocated_def)
qed


text \<open>
  C4. Let the layout give every track at most 24 sectors (the source notes that a
  track has at most 21). If the free-sector count of track \<open>t\<close>, the byte at offset
  \<open>4 * t\<close> of the BAM block, is the number of bits set in the three bytes after it,
  then this is so again after any sequence of \<open>setAllocationBit\<close>, \<open>markAsAllocated\<close>
  and \<open>markAsFree\<close> operations that runs through.
\<close>

theorem bam_count_invariant:
  assumes sec: "\<And>t s. isTrackSectorPair (layout dev) t s \<Longrightarrow> s < 24"
    and ok: "bamCountOk dev t"
    and run: "applyBamOps dev ops = Some dev'"
  shows "bamCountOk dev' t"
  using assms
proof (induction ops arbitrary: dev)
  case Nil
  then show ?case by simp
next
  case (Cons x xs)
  from Cons.prems(3) obtain dev1 where
    step: "applyBamOp dev x = Some dev1" and rest: "applyBamOps dev1 xs = Some dev'"
    by (auto split: option.splits)
  have 1: "bamCountOk dev1 t \<and> layout dev1 = layout dev"
    by (rule applyBamOp_countOk [OF Cons.prems(1) step Cons.prems(2)])
  show ?case
    by (rule Cons.IH [OF _ _ rest]) (use 1 Cons.prems(1) in simp_all)
qed

theorem bam_count_invariant_witness:
  "bamCountOk (makeWithFormat layout_SS_SD) 1
   \<and> (\<exists>dev'. applyBamOps (makeWithFormat layout_SS_SD)
                [MarkAsFree 1 0, SetAllocationBit 1 9 True, MarkAsAllocated 1 0] = Some dev'
             \<and> bamCountOk dev' 1)"
proof -
  obtain dev' where run: "applyBamOps (makeWithFormat layout_SS_SD)
      [MarkAsFree 1 0, SetAllocationBit 1 9 True, MarkAsAllocated 1 0] = Some dev'"
    using bam_ops_run by blast
  have "bamCountOk dev' 1"
    by (rule bam_count_invariant [OF _ fresh_bamCountOk run])
      (simp add: makeWithFormat_simps layout_SS_SD_simps d64_sectors)
  with fresh_bamCountOk run show ?thesis by blast
qed

subsection \<open>Scanning the directory\<close>

lemma slotsFrom_step:
  assumes "i < 144"
  shows "slotsFrom dev (Some p) i
       = (p, i mod 8) # slotsFrom dev (if i mod 8 = 7 then nextBlockPtr dev (Some p) else Some p) (i + 1)"
proof -
  define b where "b = i div 8"
  define j where "j = i mod 8"
  have i: "i = 8 * b + j" "j < 8" "b < 18" using assms by (simp_all add: b_def j_def)
  show ?thesis
  proof (cases "j = 7")
    case False
    then have j: "j < 7" using i(2) by simp
    have 1: "(i + 1) mod 8 = j + 1" "(i + 1) div 8 = b" "i + 1 < 144"
      using i j by simp_all
    have "[j..<8] = j # [j + 1..<8]" using j by (simp add: upt_conv_Cons)
    then show ?thesis
      using False 1 assms unfolding slotsFrom_def b_def [symmetric] j_def [symmetric]
      by simp
  next
    case True
    have 1: "(i + 1) mod 8 = 0" "(i + 1) div 8 = b + 1"
      using i True by simp_all
    have 7: "[7..<8] = [7::nat]" by (simp add: upt_conv_Cons)
    show ?thesis
    proof (cases "nextBlockPtr dev (Some p)")
      case None
      then show ?thesis
        using True assms 7 unfolding slotsFrom_def b_def [symmetric] j_def [symmetric]
        by simp
    next
      case (Some p')
      show ?thesis
      proof (cases "i + 1 < 144")
        case False
        then have "b = 17" using i True by simp
        then show ?thesis
          using True assms 7 Some False
          unfolding slotsFrom_def b_def [symmetric] j_def [symmetric]
          by simp
      next
        case lt: True
        then have "b < 17" using i True by simp
        then obtain k where k: "17 - b = Suc k" "17 - (b + 1) = k"
          by (cases "17 - b") simp_all
        show ?thesis
          using True assms 7 Some lt 1 k
          unfolding slotsFrom_def b_def [symmetric] j_def [symmetric]
          by (simp add: blockSlots_def)
      qed
    qed
  qed
qed

lemma scanLoop_slots:
  "scanLoop isEmpty isHidden dev skip ptr i result
     = result @ filter (\<lambda>e. \<not> (skip \<and> isHidden (entryBytes dev e)))
                  (takeWhile (\<lambda>e. \<not> isEmpty (entryBytes dev e)) (slotsFrom dev ptr i))"
proof (induction isEmpty isHidden dev skip ptr i result rule: scanLoop.induct)
  case (1 isEmpty isHidden dev skip ptr i result)
  show ?case
  proof (cases ptr)
    case None
    then show ?thesis by (subst scanLoop.simps) (simp add: slotsFrom_def)
  next
    case (Some p)
    show ?thesis
    proof (cases "i < 144")
      case False
      then show ?thesis using Some by (subst scanLoop.simps) (simp add: slotsFrom_def)
    next
      case lt: True
      note step = slotsFrom_step [OF lt, of dev p]
      show ?thesis
      proof (cases "isEmpty (entryBytes dev (p, i mod 8))")
        case True
        then show ?thesis using Some lt step by (subst scanLoop.simps) simp
      next
        case False
        have "scanLoop isEmpty isHidden dev skip ptr i result
            = scanLoop isEmpty isHidden dev skip
                (if i mod 8 = 7 then nextBlockPtr dev ptr else ptr) (i + 1)
                (if \<not> (skip \<and> isHidden (entryBytes dev (p, i mod 8)))
                 then result @ [(p, i mod 8)] else result)"
          using Some lt False by (subst scanLoop.simps) simp
        also have "\<dots> = (if \<not> (skip \<and> isHidden (entryBytes dev (p, i mod 8)))
                 then result @ [(p, i mod 8)] else result)
              @ filter (\<lambda>e. \<not> (skip \<and> isHidden (entryBytes dev e)))
                  (takeWhile (\<lambda>e. \<not> isEmpty (entryBytes dev e))
                     (slotsFrom dev (if i mod 8 = 7 then nextBlockPtr dev ptr else ptr) (i + 1)))"
          using "1.IH" [OF Some _ False] lt by simp
        finally show ?thesis
          using Some step False by simp
      qed
    qed
  qed
qed

lemma dirSlots_slotsFrom: "dirSlots dev = slotsFrom dev (blockPtrTS dev 18 1) 0"
proof (cases "blockPtrTS dev 18 1")
  case None
  then show ?thesis by (simp add: dirSlots_def slotsFrom_def)
next
  case (Some p)
  have "(18::nat) = Suc 17" by simp
  then have "dirChain dev (Some p) 18 = p # dirChain dev (nextBlockPtr dev (Some p)) 17"
    by (simp only: dirChain.simps)
  then show ?thesis
    using Some by (simp add: dirSlots_def slotsFrom_def blockSlots_def)
qed


lemma gapDisk_data:
  "data (blocks gapDisk ! 358) = someEntry @ replicate 32 0 @ someEntry @ replicate 160 0"
  "length (blocks gapDisk) = 683"
  "layout gapDisk = layout_SS_SD"
  by (simp_all add: gapDisk_def setData_simps makeWithFormat_simps layout_SS_SD_simps)

lemma gapDisk_entries:
  "entryBytes gapDisk (358, 0) = someEntry"
  "entryBytes gapDisk (358, 1) = replicate 32 0"
  "entryBytes gapDisk (358, Suc 0) = replicate 32 0"
  "entryBytes gapDisk (358, 2) = someEntry"
  by (simp_all add: entryBytes_def gapDisk_data someEntry_def)

lemma isEmptyZero_simps:
  "\<not> isEmptyZero someEntry"
  "isEmptyZero (replicate 32 0)"
  by (simp_all add: isEmptyZero_def someEntry_def list_all_iff)

lemma gapDisk_dir:
  "blockPtrTS gapDisk 18 1 = Some 358"
  "blockPtrTS gapDisk 18 (Suc 0) = Some 358"
  by (simp_all add: blockPtrTS_def blockPtr_def gapDisk_data layout_SS_SD_simps d64_blockNr)

lemma gapDisk_scan: "scanDirectory isEmptyZero (\<lambda>e. False) gapDisk False = [(358, 0)]"
  unfolding scanDirectory_def gapDisk_dir(1)
  apply (subst scanLoop.simps)
  apply (simp add: gapDisk_entries isEmptyZero_simps)
  apply (subst scanLoop.simps)
  apply (simp add: gapDisk_entries isEmptyZero_simps)
  done

lemma gapDisk_slots: "take 3 (dirSlots gapDisk) = [(358, 0), (358, 1), (358, 2)]"
proof -
  have "(18::nat) = Suc 17" by simp
  then have "dirChain gapDisk (Some 358) 18 = 358 # dirChain gapDisk (nextBlockPtr gapDisk (Some 358)) 17"
    by (simp only: dirChain.simps)
  moreover have "blockSlots 358 = [(358,0),(358,1),(358,2),(358,3),(358,4),(358,5),(358,6),(358,7)]"
    unfolding blockSlots_def by (simp add: upt_conv_Cons)
  ultimately show ?thesis
    by (simp add: dirSlots_def gapDisk_dir(2))
qed


text \<open>
  C6, as the claim states it: the scan stops only where the first entry of a sector
  is empty, or after 144 entries, so an entry that is not empty and is read before
  that point is in the result. On the disk \<open>gapDisk\<close> the first directory sector
  holds an entry, an empty entry and an entry again. Its first entry is not empty,
  its third entry is not empty, and yet the scan returns the first entry alone: it
  has stopped at the empty second entry.
\<close>

theorem scanDirectory_gap_counterexample:
  "take 3 (dirSlots gapDisk) = [(358, 0), (358, 1), (358, 2)]
   \<and> \<not> isEmptyZero (entryBytes gapDisk (358, 0))
   \<and> isEmptyZero (entryBytes gapDisk (358, 1))
   \<and> \<not> isEmptyZero (entryBytes gapDisk (358, 2))
   \<and> scanDirectory isEmptyZero (\<lambda>e. False) gapDisk False = [(358, 0)]"
  by (simp add: gapDisk_slots gapDisk_entries isEmptyZero_simps gapDisk_scan)

text \<open>
  C6, amended. \<open>scanDirectory\<close> walks the directory chain from block (18,1), eight
  entries per sector, and stops at the first empty entry, whatever its place in its
  sector, or after 144 entries, or where a link leads to no block. Every entry before
  that point, but for the hidden ones when \<open>skipInvisible\<close> is set, is in the result,
  in the order of the walk.
\<close>

theorem scanDirectory_first_empty:
  "scanDirectory isEmpty isHidden dev skipInvisible
     = filter (\<lambda>e. \<not> (skipInvisible \<and> isHidden (entryBytes dev e)))
         (takeWhile (\<lambda>e. \<not> isEmpty (entryBytes dev e)) (dirSlots dev))"
  unfolding scanDirectory_def scanLoop_slots dirSlots_slotsFrom by simp

subsection \<open>The flash ROM\<close>






subsection \<open>Suspending auto-snapshots\<close>









subsection \<open>The states of a hardware component\<close>

text \<open>
  C9. In every state of a component: \<open>pause()\<close> on a component that is not running
  changes nothing; \<open>powerOff()\<close> on a component that is off changes nothing;
  \<open>powerOff()\<close> on a running component enters the state paused and then the state
  off; \<open>requestStop()\<close> sets the stop flag, a second call changes nothing, and no
  event of the state machine clears the flag.
\<close>

theorem component_states:
  "(emuState c \<noteq> EMULATOR_STATE_RUNNING \<longrightarrow> pause c = c)
   \<and> (emuState c = EMULATOR_STATE_OFF \<longrightarrow> powerOff c = c)
   \<and> (emuState c = EMULATOR_STATE_RUNNING \<longrightarrow>
        emuState (powerOff c) = EMULATOR_STATE_OFF
        \<and> history (powerOff c) = history c @ [EMULATOR_STATE_PAUSED, EMULATOR_STATE_OFF])
   \<and> stopFlag (requestStop c)
   \<and> requestStop (requestStop c) = requestStop c
   \<and> (stopFlag c \<longrightarrow> stopFlag (event c e))"
  by (cases e) (simp_all add: pause_def powerOff_def powerOn_def run_def enter_def requestStop_def)

theorem component_states_witness:
  "pause (c3\<lparr>emuState := EMULATOR_STATE_PAUSED\<rparr>) = c3\<lparr>emuState := EMULATOR_STATE_PAUSED\<rparr>
   \<and> powerOff (c3\<lparr>emuState := EMULATOR_STATE_OFF\<rparr>) = c3\<lparr>emuState := EMULATOR_STATE_OFF\<rparr>
   \<and> emuState (powerOff c3) = EMULATOR_STATE_OFF
   \<and> history (powerOff c3) = [EMULATOR_STATE_PAUSED, EMULATOR_STATE_OFF]
   \<and> stopFlag (event (requestStop c3) PowerOff)"
  using component_states [of "c3\<lparr>emuState := EMULATOR_STATE_PAUSED\<rparr>" Pause]
    component_states [of "c3\<lparr>emuState := EMULATOR_STATE_OFF\<rparr>" Pause]
    component_states [of c3 Pause]
    component_states [of "requestStop c3" PowerOff]
  by (simp add: c3_def)

subsection \<open>Allocating blocks\<close>

lemma sameExcept_refl: "sameExcept dev dev S"
  by (simp add: sameExcept_def)

lemma sameExcept_trans:
  assumes "sameExcept a b S" "sameExcept b c T" "S \<union> T \<subseteq> U"
  shows "sameExcept a c U"
  using assms unfolding sameExcept_def by (metis UnI1 UnI2 subsetD)

lemma sameExcept_setData:
  assumes "length d = length (data (blocks dev ! p))" "p \<in> S"
  shows "sameExcept dev (setData dev p d) S"
proof -
  have "length (data (blocks (setData dev p d) ! q)) = length (data (blocks dev ! q))" for q
    using assms(1)
    by (cases "q = p"; cases "p < length (blocks dev)") (simp_all add: setData_def list_update_beyond)
  moreover have "blocks (setData dev p d) ! q = blocks dev ! q" if "q \<notin> S" for q
  proof -
    have "q \<noteq> p" using that assms(2) by blast
    then show ?thesis by (simp add: setData_def)
  qed
  ultimately show ?thesis
    by (simp add: sameExcept_def setData_def)
qed

lemma sameExcept_ptr:
  assumes "sameExcept dev dev' S"
  shows "blockPtrTS dev' t s = blockPtrTS dev t s" "bamPtr dev' = bamPtr dev"
    "blockNr dev' r = blockNr dev r" "blockPtrRef dev' r = blockPtrRef dev r"
  using assms
  by (simp_all add: sameExcept_def blockPtrTS_def blockPtr_def bamPtr_def blockNr_def
      blockPtrRef_def)

lemma length_clearBit: "length (clearBit d r) = length d"
  by (simp add: clearBit_def markUsed_def Let_def)

lemma markAsAllocated_effect:
  assumes "isTrackSectorPair (layout dev) t s" "bamPtr dev = Some bam"
    and "u32 (4 * t + 1 + s div 8) < length (data (blocks dev ! bam))"
  shows "markAsAllocated dev t s
       = Some (setData dev bam (clearBit (data (blocks dev ! bam)) (t, s)))"
  using assms
  by (simp add: markAsAllocated_def setAllocationBit_def locateAllocationBit_def Let_def
      clearBit_def)

lemma allocateStep_effect:
  assumes pair: "isTrackSectorPair (layout dev) (fst r) (snd r)"
    and bam: "bamPtr dev = Some bam"
    and byte: "u32 (4 * fst r + 1 + snd r div 8) < length (data (blocks dev ! bam))"
    and b: "blockNr dev r < length (blocks dev)" "blockNr dev r \<noteq> bam"
    and len2: "2 \<le> length (data (blocks dev ! blockNr dev r))"
  shows "\<exists>dev'. allocateStep i (dev, r, res, blk)
             = Some (dev', snd (nextTrackAndSector (layout dev) (fst r) (snd r)), res @ [r],
                     Some (blockNr dev r))
           \<and> sameExcept dev dev' {bam, blockNr dev r}
           \<and> data (blocks dev' ! blockNr dev r)
               = withLink (snd (nextTrackAndSector (layout dev) (fst r) (snd r)))
                   (data (blocks dev ! blockNr dev r))
           \<and> data (blocks dev' ! bam) = clearBit (data (blocks dev ! bam)) r"
proof -
  let ?b = "blockNr dev r"
  let ?r' = "snd (nextTrackAndSector (layout dev) (fst r) (snd r))"
  define d where "d = clearBit (data (blocks dev ! bam)) r"
  have d: "markAsAllocated dev (fst r) (snd r) = Some (setData dev bam d)"
      "length d = length (data (blocks dev ! bam))"
    using markAsAllocated_effect [OF pair bam byte] by (simp_all add: d_def length_clearBit)
  let ?dev1 = "setData dev bam d"
  have s1: "sameExcept dev ?dev1 {bam, ?b}"
    by (rule sameExcept_setData) (use d(2) in simp_all)
  have blk1: "blocks ?dev1 ! ?b = blocks dev ! ?b"
    using b(2) by (simp add: setData_def)
  have ptr: "blockPtrTS ?dev1 (fst r) (snd r) = Some ?b"
    using b(1) by (simp add: blockPtrTS_def blockPtr_def blockNr_def setData_def)
  let ?d2 = "withLink ?r' (data (blocks dev ! ?b))"
  let ?dev2 = "setData ?dev1 ?b ?d2"
  have link: "setLink ?dev1 (Some ?b) (fst ?r') (snd ?r') = Some ?dev2"
    using len2 blk1 by (simp add: setLink_def withLink_def)
  have s2: "sameExcept ?dev1 ?dev2 {bam, ?b}"
    by (rule sameExcept_setData) (use blk1 in \<open>simp_all add: withLink_def\<close>)
  have s: "sameExcept dev ?dev2 {bam, ?b}"
    by (rule sameExcept_trans [OF s1 s2]) simp
  have "?b < length (blocks ?dev1)" using b(1) by (simp add: setData_def)
  then have dat: "data (blocks ?dev2 ! ?b) = ?d2"
    by (simp add: setData_def)
  have lay: "layout ?dev1 = layout dev" by (simp add: setData_def)
  have "bam < length (blocks dev)" by (rule bamPtr_less [OF bam])
  then have datb: "data (blocks ?dev2 ! bam) = clearBit (data (blocks dev ! bam)) r"
    using b(2) by (simp add: setData_def d_def)
  have "allocateStep i (dev, r, res, blk) = Some (?dev2, ?r', res @ [r], Some ?b)"
    unfolding allocateStep_def using d(1) ptr link lay by (simp add: Let_def)
  with s dat datb show ?thesis by blast
qed


lemma length_walk: "length (walk l r n) = n"
  by (induction n arbitrary: r) simp_all

lemma take_walk: "m \<le> n \<Longrightarrow> take m (walk l r n) = walk l r m"
proof (induction m arbitrary: r n)
  case 0
  show ?case by simp
next
  case (Suc m)
  then obtain n' where "n = Suc n'" by (cases n) simp_all
  with Suc show ?case by simp
qed

lemma walk_nth: "k < m \<Longrightarrow> m \<le> n \<Longrightarrow> walk l r n ! k = walk l r m ! k"
  using take_walk [of m n l r] nth_take [of k m "walk l r n"] by simp

lemma refsOk_sameExcept:
  assumes "refsOk dev bam rs" "sameExcept dev dev' S"
  shows "refsOk dev' bam rs"
proof -
  have "blockNr dev' = blockNr dev"
    using sameExcept_ptr(3) [OF assms(2)] by (rule ext)
  then show ?thesis
    using assms unfolding refsOk_def sameExcept_def by simp
qed

lemma allocLoop:
  assumes "bamPtr dev = Some bam" "refsOk dev bam (walk (layout dev) r0 n)" "length ix = n"
  shows "\<exists>dev' r' blk'.
           forM ix allocateStep (dev, r0, res, blk)
             = Some (dev', r', res @ walk (layout dev) r0 n, blk')
         \<and> sameExcept dev dev' (insert bam (blockNr dev ` set (walk (layout dev) r0 n)))
         \<and> (\<forall>k<n. data (blocks dev' ! blockNr dev (walk (layout dev) r0 n ! k))
                    = withLink (walk (layout dev) r0 (Suc n) ! Suc k)
                        (data (blocks dev ! blockNr dev (walk (layout dev) r0 n ! k))))
         \<and> blk' = (if n = 0 then blk else Some (blockNr dev (walk (layout dev) r0 n ! (n - 1))))
         \<and> data (blocks dev' ! bam)
             = foldl clearBit (data (blocks dev ! bam)) (walk (layout dev) r0 n)"
  using assms
proof (induction ix arbitrary: dev r0 res blk n)
  case Nil
  then show ?case by (simp add: sameExcept_refl)
next
  case (Cons i ix)
  then obtain m where n: "n = Suc m" by (cases n) simp_all
  let ?L = "layout dev"
  let ?r1 = "snd (nextTrackAndSector ?L (fst r0) (snd r0))"
  let ?W = "walk ?L ?r1 m"
  let ?b0 = "blockNr dev r0"
  have w: "walk ?L r0 n = r0 # ?W" by (simp add: n)
  have ok: "refsOk dev bam (r0 # ?W)" using Cons.prems(2) w by simp
  then have ok0: "isTrackSectorPair ?L (fst r0) (snd r0)"
      "u32 (4 * fst r0 + 1 + snd r0 div 8) < length (data (blocks dev ! bam))"
      "?b0 < length (blocks dev)" "?b0 \<noteq> bam" "2 \<le> length (data (blocks dev ! ?b0))"
    and okW: "refsOk dev bam ?W" and notin: "?b0 \<notin> blockNr dev ` set ?W"
    by (simp_all add: refsOk_def)
  obtain dev1 where step: "allocateStep i (dev, r0, res, blk) = Some (dev1, ?r1, res @ [r0], Some ?b0)"
    and s1: "sameExcept dev dev1 {bam, ?b0}"
    and d1: "data (blocks dev1 ! ?b0) = withLink ?r1 (data (blocks dev ! ?b0))"
    and m1: "data (blocks dev1 ! bam) = clearBit (data (blocks dev ! bam)) r0"
    using allocateStep_effect [OF ok0(1) Cons.prems(1) ok0(2-5), of i res blk] by blast
  have lay1: "layout dev1 = ?L" using s1 by (simp add: sameExcept_def)
  have bn1: "blockNr dev1 = blockNr dev"
    using sameExcept_ptr(3) [OF s1] by (rule ext)
  have bam1: "bamPtr dev1 = Some bam"
    using sameExcept_ptr(2) [OF s1] Cons.prems(1) by simp
  have ok1: "refsOk dev1 bam (walk (layout dev1) ?r1 m)"
    using refsOk_sameExcept [OF okW s1] lay1 by simp
  have lenm: "length ix = m" using Cons.prems(3) n by simp
  from Cons.IH [OF bam1 ok1 lenm, of "res @ [r0]" "Some ?b0"]
  obtain dev' r' blk' where
    run: "forM ix allocateStep (dev1, ?r1, res @ [r0], Some ?b0)
            = Some (dev', r', (res @ [r0]) @ ?W, blk')"
    and s2: "sameExcept dev1 dev' (insert bam (blockNr dev ` set ?W))"
    and d2: "\<And>k. k < m \<Longrightarrow> data (blocks dev' ! blockNr dev (?W ! k))
                    = withLink (walk ?L ?r1 (Suc m) ! Suc k)
                        (data (blocks dev1 ! blockNr dev (?W ! k)))"
    and b2: "blk' = (if m = 0 then Some ?b0 else Some (blockNr dev (?W ! (m - 1))))"
    and m2: "data (blocks dev' ! bam) = foldl clearBit (data (blocks dev1 ! bam)) ?W"
    unfolding lay1 bn1 by blast
  have mm: "data (blocks dev' ! bam) = foldl clearBit (data (blocks dev ! bam)) (walk ?L r0 n)"
    using m1 m2 w by simp
  have run': "forM (i # ix) allocateStep (dev, r0, res, blk)
      = Some (dev', r', res @ walk ?L r0 n, blk')"
    using step run w by simp
  have s: "sameExcept dev dev' (insert bam (blockNr dev ` set (walk ?L r0 n)))"
    by (rule sameExcept_trans [OF s1 s2]) (auto simp: w)
  have d: "data (blocks dev' ! blockNr dev (walk ?L r0 n ! k))
         = withLink (walk ?L r0 (Suc n) ! Suc k) (data (blocks dev ! blockNr dev (walk ?L r0 n ! k)))"
    if k: "k < n" for k
  proof (cases k)
    case 0
    have "blocks dev' ! ?b0 = blocks dev1 ! ?b0"
      using s2 notin ok0(4) unfolding sameExcept_def by blast
    then show ?thesis using 0 d1 w by (simp add: n)
  next
    case (Suc k')
    then have k': "k' < m" using k n by simp
    then have mem: "?W ! k' \<in> set ?W" by (simp add: length_walk)
    then have "blockNr dev (?W ! k') \<noteq> ?b0" using notin by (metis imageI)
    moreover have "blockNr dev (?W ! k') \<noteq> bam"
      using okW mem unfolding refsOk_def by blast
    ultimately have "blocks dev1 ! blockNr dev (?W ! k') = blocks dev ! blockNr dev (?W ! k')"
      using s1 unfolding sameExcept_def by blast
    then show ?thesis using Suc d2 [OF k'] w by (simp add: n)
  qed
  have b: "blk' = (if n = 0 then blk else Some (blockNr dev (walk ?L r0 n ! (n - 1))))"
  proof (cases m)
    case 0
    then show ?thesis using b2 n by simp
  next
    case (Suc m')
    then show ?thesis using b2 n w by simp
  qed
  show ?case using run' s d b mm by blast
qed

lemma withLink_twice: "withLink r (withLink r' d) = withLink r d"
proof -
  have "d[0 := a, Suc 0 := b, 0 := c] = d[0 := c, Suc 0 := b]" for a b c :: u8
    using list_update_swap [of "Suc 0" 0 "d[0 := a]" b c] by simp
  then show ?thesis by (simp add: withLink_def)
qed

lemma nextFreeBlock_free:
  assumes "isValidRef (layout dev) ref" "isFreeRef dev ref = Some True"
  shows "nextFreeBlock dev ref = Some ref"
  using assms by (simp add: nextFreeBlock_def nextFreeBlockLoop.simps [of dev ref])

lemma allocate_walk:
  assumes valid: "isValidRef (layout dev) ref" and free: "isFreeRef dev ref = Some True"
    and t: "fst ref \<noteq> 0" and n: "0 < n"
    and bam: "bamPtr dev = Some bam"
    and ok: "refsOk dev bam (walk (layout dev) ref n)"
  shows "\<exists>dev'. allocate dev ref n = Some (dev', walk (layout dev) ref n)
           \<and> sameExcept dev dev' (insert bam (blockNr dev ` set (walk (layout dev) ref n)))
           \<and> (\<forall>k<n. data (blocks dev' ! blockNr dev (walk (layout dev) ref n ! k))
                 = withLink (if Suc k < n then walk (layout dev) ref n ! Suc k else (0, 0))
                     (data (blocks dev ! blockNr dev (walk (layout dev) ref n ! k))))
           \<and> data (blocks dev' ! bam)
               = foldl clearBit (data (blocks dev ! bam)) (walk (layout dev) ref n)"
proof -
  let ?W = "walk (layout dev) ref n"
  let ?S = "insert bam (blockNr dev ` set ?W)"
  obtain dev1 r1 blk1 where
    run: "forM [0..<n] allocateStep (dev, ref, [], None) = Some (dev1, r1, [] @ ?W, blk1)"
    and s1: "sameExcept dev dev1 ?S"
    and d1: "\<And>k. k < n \<Longrightarrow> data (blocks dev1 ! blockNr dev (?W ! k))
                    = withLink (walk (layout dev) ref (Suc n) ! Suc k)
                        (data (blocks dev ! blockNr dev (?W ! k)))"
    and b1: "blk1 = (if n = 0 then None else Some (blockNr dev (?W ! (n - 1))))"
    and m1: "data (blocks dev1 ! bam) = foldl clearBit (data (blocks dev ! bam)) ?W"
    using allocLoop [OF bam ok, of "[0..<n]" "[]" None] by auto
  let ?last = "blockNr dev (?W ! (n - 1))"
  have lastmem: "?W ! (n - 1) \<in> set ?W" using n by (simp add: length_walk)
  then have last: "?last < length (blocks dev)" "2 \<le> length (data (blocks dev ! ?last))"
    using ok unfolding refsOk_def by blast+
  have len1: "length (data (blocks dev1 ! ?last)) = length (data (blocks dev ! ?last))"
    using s1 unfolding sameExcept_def by blast
  let ?dev2 = "setData dev1 ?last (withLink (0, 0) (data (blocks dev1 ! ?last)))"
  have link: "setLink dev1 blk1 0 0 = Some ?dev2"
    using b1 n last(2) len1 by (simp add: setLink_def withLink_def)
  have s2: "sameExcept dev1 ?dev2 ?S"
    by (rule sameExcept_setData) (use lastmem in \<open>simp_all add: withLink_def\<close>)
  have s: "sameExcept dev dev' ?S" if "dev' = ?dev2" for dev'
    unfolding that by (rule sameExcept_trans [OF s1 s2]) simp
  have res: "allocate dev ref n = Some (?dev2, ?W)"
    using n t nextFreeBlock_free [OF valid free] run link by (simp add: allocate_def)
  have lastlt: "?last < length (blocks dev1)"
    using last(1) s1 unfolding sameExcept_def by simp
  have d: "data (blocks ?dev2 ! blockNr dev (?W ! k))
      = withLink (if Suc k < n then ?W ! Suc k else (0, 0)) (data (blocks dev ! blockNr dev (?W ! k)))"
    if k: "k < n" for k
  proof (cases "Suc k < n")
    case True
    have "k \<noteq> n - 1" using True by simp
    moreover have "distinct (map (blockNr dev) ?W)" using ok unfolding refsOk_def by blast
    ultimately have "blockNr dev (?W ! k) \<noteq> ?last"
      using k n nth_eq_iff_index_eq [of "map (blockNr dev) ?W" k "n - 1"]
      by (simp add: length_walk)
    then have "blocks ?dev2 ! blockNr dev (?W ! k) = blocks dev1 ! blockNr dev (?W ! k)"
      by (simp add: setData_def)
    moreover have "walk (layout dev) ref (Suc n) ! Suc k = ?W ! Suc k"
      by (rule walk_nth) (use True in simp_all)
    ultimately show ?thesis using True d1 [OF k] by simp
  next
    case False
    then have kn: "k = n - 1" using k by simp
    have "data (blocks ?dev2 ! ?last) = withLink (0, 0) (data (blocks dev1 ! ?last))"
      using lastlt by (simp add: setData_def)
    then show ?thesis
      using False d1 [OF k] kn by (simp add: withLink_twice)
  qed
  have "?last \<noteq> bam" using ok lastmem unfolding refsOk_def by blast
  then have "blocks ?dev2 ! bam = blocks dev1 ! bam" by (simp add: setData_def)
  then have mm: "data (blocks ?dev2 ! bam) = foldl clearBit (data (blocks dev ! bam)) ?W"
    using m1 by simp
  show ?thesis using res s d mm by blast
qed

lemma oneFreeDisk_simps:
  "layout oneFreeDisk = layout_SS_SD"
  "length (blocks oneFreeDisk) = 683"
  "data (blocks oneFreeDisk ! 357) = [0, 0, 0, 0, 1, 1] @ replicate 250 0"
  "p \<noteq> 357 \<Longrightarrow> p < 683 \<Longrightarrow> data (blocks oneFreeDisk ! p) = replicate 256 0"
  "bamPtr oneFreeDisk = Some 357"
  by (simp_all add: oneFreeDisk_def setData_simps makeWithFormat_simps layout_SS_SD_simps
      bamPtr_setData d64_bam FSBlock_new_def)

lemma walk2: "walk layout_SS_SD (1, 0) 2 = [(1, 0), (1, 10)]"
  by code_simp


text \<open>
  C3. The claim has every block that \<open>allocate\<close> returns free at the time it is
  picked, and the empty list returned when fewer than \<open>n\<close> free blocks can be
  reached. The source looks for a free block once, before its loop; in the loop it
  takes what \<open>nextTrackAndSector\<close> yields, without a look at the BAM. On
  \<open>oneFreeDisk\<close>, where sector 0 of track 1 is the only free block, \<open>allocate\<close> from
  (1,0) for two blocks returns (1,0) and (1,10), and (1,10) is not free.
\<close>

theorem allocate_takes_used_block:
  "data (blocks oneFreeDisk ! 357) = [0, 0, 0, 0, 1, 1] @ replicate 250 0
   \<and> isFree oneFreeDisk 1 0 = Some True
   \<and> isFree oneFreeDisk 1 10 = Some False
   \<and> (\<exists>dev'. allocate oneFreeDisk (1, 0) 2 = Some (dev', [(1, 0), (1, 10)]))"
proof -
  have u: "u32 5 = 5" "u32 6 = 6" by (simp_all add: u32_def)
  have p: "d64_isTrackSectorPair 1 0" "d64_isTrackSectorPair 1 10"
    by (simp_all add: d64_isTrackSectorPair_def numSectors_def)
  have f0: "isFree oneFreeDisk 1 0 = Some True"
    using p u by (simp add: isFree_def locateAllocationBit_def bamByte_def oneFreeDisk_simps
        layout_SS_SD_simps)
  have f10: "isFree oneFreeDisk 1 10 = Some False"
    using p u by (simp add: isFree_def locateAllocationBit_def bamByte_def oneFreeDisk_simps
        layout_SS_SD_simps)
  have fr: "isFreeRef oneFreeDisk (1, 0) = Some True"
    using p u by (simp add: isFreeRef_def locateAllocationBitRef_def bamByte_def oneFreeDisk_simps
        layout_SS_SD_simps)
  have ok: "refsOk oneFreeDisk 357 (walk (layout oneFreeDisk) (1, 0) 2)"
    using p u unfolding oneFreeDisk_simps(1) walk2
    by (simp add: refsOk_def blockNr_def oneFreeDisk_simps layout_SS_SD_simps d64_blockNr)
  have "\<exists>dev'. allocate oneFreeDisk (1, 0) 2 = Some (dev', walk (layout oneFreeDisk) (1, 0) 2)"
    using allocate_walk [of oneFreeDisk "(1, 0)" 2 357, OF _ fr _ _ oneFreeDisk_simps(5) ok] p
    by (auto simp: oneFreeDisk_simps layout_SS_SD_simps)
  then have "\<exists>dev'. allocate oneFreeDisk (1, 0) 2 = Some (dev', [(1, 0), (1, 10)])"
    unfolding oneFreeDisk_simps(1) walk2 .
  with f0 f10 oneFreeDisk_simps(3) show ?thesis by blast
qed

subsection \<open>Writing a file and reading it back\<close>

lemma concat_update:
  assumes "\<forall>xs \<in> set xss. length xs = m" "q < length xss" "r < m"
  shows "(concat xss)[m * q + r := x] = concat (xss[q := (xss ! q)[r := x]])"
  using assms
proof (induction xss arbitrary: q)
  case Nil
  then show ?case by simp
next
  case (Cons ys yss)
  show ?case
  proof (cases q)
    case 0
    then show ?thesis using Cons.prems by (simp add: list_update_append)
  next
    case (Suc q')
    have len: "length ys = m" using Cons.prems(1) by simp
    have "m * q + r - length ys = m * q' + r" using len Suc by simp
    moreover have "\<not> m * q + r < length ys" using len Suc by simp
    ultimately have "(ys @ concat yss)[m * q + r := x] = ys @ (concat yss)[m * q' + r := x]"
      by (simp add: list_update_append)
    then show ?thesis
      using Cons.IH [of q'] Cons.prems Suc by simp
  qed
qed

lemma payload_update:
  assumes dist: "distinct bs" and q: "q < length bs" and r: "r < 254"
    and len: "\<forall>b \<in> set bs. b < length (blocks dev) \<and> length (data (blocks dev ! b)) = 256"
  shows "payload (setData dev (bs ! q) ((data (blocks dev ! (bs ! q)))[2 + r := x])) bs
       = (payload dev bs)[254 * q + r := x]"
proof -
  let ?f = "\<lambda>b. drop 2 (data (blocks dev ! b))"
  let ?dev' = "setData dev (bs ! q) ((data (blocks dev ! (bs ! q)))[2 + r := x])"
  let ?f' = "\<lambda>b. drop 2 (data (blocks ?dev' ! b))"
  have bq: "bs ! q < length (blocks dev)" using len q by simp
  have "map ?f' bs = (map ?f bs)[q := (map ?f bs ! q)[r := x]]"
  proof (rule nth_equalityI)
    show "length (map ?f' bs) = length ((map ?f bs)[q := (map ?f bs ! q)[r := x]])" by simp
  next
    fix k assume "k < length (map ?f' bs)"
    then have k: "k < length bs" by simp
    show "map ?f' bs ! k = (map ?f bs)[q := (map ?f bs ! q)[r := x]] ! k"
    proof (cases "k = q")
      case True
      have "data (blocks ?dev' ! (bs ! q)) = (data (blocks dev ! (bs ! q)))[2 + r := x]"
        using bq by (simp add: setData_def)
      then show ?thesis using True q by (simp add: drop_update_swap)
    next
      case False
      then have "bs ! k \<noteq> bs ! q" using dist k q by (simp add: nth_eq_iff_index_eq)
      then have "blocks ?dev' ! (bs ! k) = blocks dev ! (bs ! k)" by (simp add: setData_def)
      then show ?thesis using False k by simp
    qed
  qed
  moreover have "(concat (map ?f bs))[254 * q + r := x]
      = concat ((map ?f bs)[q := (map ?f bs ! q)[r := x]])"
    by (rule concat_update) (use len q r in auto)
  ultimately show ?thesis by (simp add: payload_def)
qed

lemma take_update_next:
  assumes "i < length buf" "i < length P"
  shows "(take i buf @ drop i P)[i := buf ! i] = take (Suc i) buf @ drop (Suc i) P"
proof -
  have "drop i P = P ! i # drop (Suc i) P" using assms(2) by (simp add: Cons_nth_drop_Suc)
  then show ?thesis
    using assms(1) by (simp add: list_update_append take_Suc_conv_app_nth)
qed


lemma writeByteAt_ok:
  assumes "j < length (data (blocks dev ! p))"
  shows "writeByteAt dev it (Some p) j b
       = Some (setData dev p ((data (blocks dev ! p))[j := b]), it, Some p, j + 1)"
  using assms by (simp add: writeByteAt_def)

lemma writeStep_state:
  assumes q: "i div 254 < length W" "length bs = length W"
    and ptr: "blockPtrRef dev (W ! (i div 254)) = Some (bs ! (i div 254))"
    and len: "length (data (blocks dev ! (bs ! (i div 254)))) = 256"
  shows "writeStep W buf i (writeState bs dev i)
       = Some (writeState bs
                 (setData dev (bs ! (i div 254))
                    ((data (blocks dev ! (bs ! (i div 254))))[2 + i mod 254 := buf ! i]))
                 (Suc i))"
proof -
  define q where "q = i div 254"
  define r where "r = i mod 254"
  have i: "i = 254 * q + r" "r < 254" by (simp_all add: q_def r_def)
  let ?dev' = "setData dev (bs ! q) ((data (blocks dev ! (bs ! q)))[2 + r := buf ! i])"
  have after: "writeState bs ?dev' (Suc i) = (?dev', q, Some (bs ! q), 3 + r)"
    by (simp add: writeState_def q_def r_def)
  have wr: "writeByteAt dev q (Some (bs ! q)) (2 + r) (buf ! i)
      = Some (?dev', q, Some (bs ! q), 3 + r)"
    using writeByteAt_ok [of "2 + r" dev "bs ! q" q "buf ! i"] len i(2)
    by (simp add: q_def [symmetric])
  have "writeStep W buf i (writeState bs dev i) = Some (?dev', q, Some (bs ! q), 3 + r)"
  proof (cases "i = 0")
    case True
    then have "q = 0" "r = 0" by (simp_all add: q_def r_def)
    then show ?thesis using True wr by (simp add: writeState_def writeStep_def)
  next
    case False
    show ?thesis
    proof (cases "r = 0")
      case True
      then obtain q' where q': "q = Suc q'" using False i(1) by (cases q) simp_all
      have "i - 1 = 254 * q' + 253" using i(1) True q' by simp
      then have "(i - 1) div 254 = q'" "(i - 1) mod 254 = 253" by simp_all
      then have st: "writeState bs dev i = (dev, q', Some (bs ! q'), 256)"
        using False by (simp add: writeState_def)
      show ?thesis
        unfolding st writeStep_def
        using q(1) ptr wr True q' by (simp add: q_def [symmetric])
    next
      case r: False
      then obtain r' where r': "r = Suc r'" by (cases r) simp_all
      have "i - 1 = 254 * q + r'" using i(1) r' by simp
      moreover have "r' < 254" using i(2) r' by simp
      ultimately have "(i - 1) div 254 = q" "(i - 1) mod 254 = r'" by simp_all
      then have st: "writeState bs dev i = (dev, q, Some (bs ! q), 2 + r)"
        using False r' by (simp add: writeState_def)
      have "2 + r \<noteq> 256" using i(2) by simp
      then show ?thesis
        unfolding st writeStep_def using wr by simp
    qed
  qed
  with after show ?thesis
    unfolding q_def r_def by (simp only:)
qed

lemma length_payload:
  assumes "\<forall>b \<in> set bs. length (data (blocks dev ! b)) = 256"
  shows "length (payload dev bs) = 254 * length bs"
  using assms by (induction bs) (simp_all add: payload_def)

lemma writeLoop:
  assumes dist: "distinct bs" and lenW: "length bs = length W"
    and len: "\<forall>b \<in> set bs. b < length (blocks dev) \<and> length (data (blocks dev ! b)) = 256"
    and ptr: "\<And>k. k < length W \<Longrightarrow> blockPtrRef dev (W ! k) = Some (bs ! k)"
    and m: "m \<le> length buf" "m \<le> 254 * length bs"
  shows "\<exists>dev'. forM [0..<m] (writeStep W buf) (writeState bs dev 0) = Some (writeState bs dev' m)
           \<and> sameExcept dev dev' (set bs)
           \<and> payload dev' bs = take m buf @ drop m (payload dev bs)
           \<and> (\<forall>b \<in> set bs. take 2 (data (blocks dev' ! b)) = take 2 (data (blocks dev ! b)))"
  using m
proof (induction m)
  case 0
  have "forM [0..<0] (writeStep W buf) (writeState bs dev 0) = Some (writeState bs dev 0)"
    "payload dev bs = take 0 buf @ drop 0 (payload dev bs)"
    by simp_all
  then show ?case using sameExcept_refl [of dev "set bs"] by blast
next
  case (Suc m)
  then obtain dev1 where
    run: "forM [0..<m] (writeStep W buf) (writeState bs dev 0) = Some (writeState bs dev1 m)"
    and s1: "sameExcept dev dev1 (set bs)"
    and p1: "payload dev1 bs = take m buf @ drop m (payload dev bs)"
    and l1: "\<And>b. b \<in> set bs \<Longrightarrow> take 2 (data (blocks dev1 ! b)) = take 2 (data (blocks dev ! b))"
    by auto
  define q where "q = m div 254"
  define r where "r = m mod 254"
  have mq: "m = 254 * q + r" "r < 254" by (simp_all add: q_def r_def)
  have q: "q < length bs" using Suc.prems(2) mq by simp
  then have bq: "bs ! q \<in> set bs" by simp
  have len1: "\<forall>b \<in> set bs. b < length (blocks dev1) \<and> length (data (blocks dev1 ! b)) = 256"
    using len s1 unfolding sameExcept_def by simp
  have ptr1: "blockPtrRef dev1 (W ! q) = Some (bs ! q)"
    using ptr [of q] q lenW sameExcept_ptr(4) [OF s1] by simp
  let ?d = "(data (blocks dev1 ! (bs ! q)))[2 + r := buf ! m]"
  let ?dev2 = "setData dev1 (bs ! q) ?d"
  have step: "writeStep W buf m (writeState bs dev1 m) = Some (writeState bs ?dev2 (Suc m))"
    using writeStep_state [of m W bs dev1 buf] q lenW ptr1 len1 bq
    by (simp add: q_def [symmetric] r_def [symmetric])
  have run2: "forM [0..<Suc m] (writeStep W buf) (writeState bs dev 0)
      = Some (writeState bs ?dev2 (Suc m))"
  proof -
    have "forM [0..<Suc m] (writeStep W buf) (writeState bs dev 0)
        = forM ([0..<m] @ [m]) (writeStep W buf) (writeState bs dev 0)" by simp
    also have "\<dots> = Some (writeState bs ?dev2 (Suc m))"
      unfolding forM_append run using step by simp
    finally show ?thesis .
  qed
  have s2: "sameExcept dev1 ?dev2 (set bs)"
    by (rule sameExcept_setData) (use bq in simp_all)
  have s: "sameExcept dev ?dev2 (set bs)"
    by (rule sameExcept_trans [OF s1 s2]) simp
  have lenP: "length (payload dev bs) = 254 * length bs"
    by (rule length_payload) (use len in simp)
  have "payload ?dev2 bs = (payload dev1 bs)[254 * q + r := buf ! m]"
    by (rule payload_update [OF dist q mq(2) len1])
  also have "\<dots> = (take m buf @ drop m (payload dev bs))[m := buf ! m]"
    using p1 mq(1) by simp
  also have "\<dots> = take (Suc m) buf @ drop (Suc m) (payload dev bs)"
    by (rule take_update_next) (use Suc.prems lenP in simp_all)
  finally have p: "payload ?dev2 bs = take (Suc m) buf @ drop (Suc m) (payload dev bs)" .
  have l: "take 2 (data (blocks ?dev2 ! b)) = take 2 (data (blocks dev ! b))" if b: "b \<in> set bs" for b
  proof (cases "b = bs ! q")
    case True
    have "bs ! q < length (blocks dev1)" using len1 bq by simp
    then have "data (blocks ?dev2 ! b) = ?d" using True by (simp add: setData_def)
    then show ?thesis using l1 [OF b] True by simp
  next
    case False
    then have "blocks ?dev2 ! b = blocks dev1 ! b" by (simp add: setData_def)
    then show ?thesis using l1 [OF b] by simp
  qed
  show ?case using run2 s p l by blast
qed


lemma ceil_254: "(c::nat) \<le> 254 * ((c + 253) div 254)"
proof -
  define q where "q = (c + 253) div 254"
  define r where "r = (c + 253) mod 254"
  have "c + 253 = 254 * q + r" "r < 254" by (simp_all add: q_def r_def)
  then show ?thesis unfolding q_def [symmetric] by linarith
qed

lemma concat_nth_uniform:
  assumes "\<forall>x \<in> set xs. length (f x) = m" "k < length xs" "j < m"
  shows "concat (map f xs) ! (m * k + j) = f (xs ! k) ! j"
  using assms
proof (induction xs arbitrary: k)
  case Nil
  then show ?case by simp
next
  case (Cons x xs)
  show ?case
  proof (cases k)
    case 0
    then show ?thesis using Cons.prems by (simp add: nth_append)
  next
    case (Suc k')
    have "concat (map f (x # xs)) ! (m * k + j) = concat (map f xs) ! (m * k' + j)"
      using Cons.prems Suc by (simp add: nth_append)
    also have "\<dots> = f (xs ! k') ! j"
      using Cons.prems Suc by (intro Cons.IH) simp_all
    finally show ?thesis using Suc by simp
  qed
qed

lemma forM_cong:
  assumes "\<And>i x. i \<in> set xs \<Longrightarrow> f i x = g i x"
  shows "forM xs f x = forM xs g x"
  using assms by (induction xs arbitrary: x) (simp_all split: option.splits)

lemma writeStep_cong:
  assumes "buf' ! i = buf ! i"
  shows "writeStep W buf' i st = writeStep W buf i st"
  using assms by (simp add: writeStep_def split: prod.splits)

lemma setData_same:
  assumes "d = data (blocks dev ! p)"
  shows "setData dev p d = dev"
  unfolding setData_def assms by simp

lemma drop2_withLink: "drop 2 (withLink r d) = drop 2 d"
proof -
  have "drop 2 (xs[1 := y]) = drop 2 xs" "drop 2 (xs[0 := y]) = drop 2 xs" for xs :: "u8 list" and y
    by (rule drop_update_cancel, simp)+
  then show ?thesis unfolding withLink_def by (simp only:)
qed

lemma take2_withLink:
  assumes "2 \<le> length d"
  shows "take 2 (withLink r d) = [of_nat (fst r), of_nat (snd r)]"
proof -
  obtain a d1 where 1: "d = a # d1" using assms by (cases d) simp_all
  then obtain b d2 where 2: "d1 = b # d2" using assms by (cases d1) simp_all
  have "take 2 (x # y # d2) = [x, y]" for x y :: u8
    by (simp add: numeral_2_eq_2)
  then show ?thesis unfolding 1 2 withLink_def by simp
qed

lemma payload_withLink:
  assumes "\<forall>b \<in> set bs. \<exists>r. data (blocks dev' ! b) = withLink r (data (blocks dev ! b))"
  shows "payload dev' bs = payload dev bs"
proof -
  have eq: "drop 2 (data (blocks dev' ! b)) = drop 2 (data (blocks dev ! b))" if "b \<in> set bs" for b
  proof -
    from bspec [OF assms that]
    obtain r where "data (blocks dev' ! b) = withLink r (data (blocks dev ! b))" ..
    then show ?thesis by (simp only: drop2_withLink)
  qed
  have "map (\<lambda>b. drop 2 (data (blocks dev' ! b))) bs = map (\<lambda>b. drop 2 (data (blocks dev ! b))) bs"
    by (rule map_cong [OF refl]) (rule eq)
  then show ?thesis unfolding payload_def by (simp only:)
qed

lemma makeFileEntry_chain:
  assumes ref: "ref = (1, 0)"
    and valid: "isValidRef (layout dev) ref" and free: "isFreeRef dev ref = Some True"
    and bam: "bamPtr dev = Some bam"
    and n: "n = (length buf + 253) div 254" "0 < n" "n < 2 ^ 32"
    and ok: "refsOk dev bam (walk (layout dev) ref n)"
    and len: "\<forall>r \<in> set (walk (layout dev) ref n).
                length (data (blocks dev ! blockNr dev r)) = 256"
  shows "\<exists>dev1. makeFileEntry dirInit dev name dir buf
               = Some (True, initEntry dirInit dev1 dir name ref n)
           \<and> sameExcept dev dev1
                (insert bam (blockNr dev ` set (walk (layout dev) ref n)))
           \<and> payload dev1 (map (blockNr dev) (walk (layout dev) ref n))
               = buf @ drop (length buf)
                         (payload dev (map (blockNr dev) (walk (layout dev) ref n)))
           \<and> (\<forall>k<n. take 2 (data (blocks dev1 ! blockNr dev (walk (layout dev) ref n ! k)))
                 = (if Suc k < n
                    then [of_nat (fst (walk (layout dev) ref n ! Suc k)),
                          of_nat (snd (walk (layout dev) ref n ! Suc k))]
                    else [0, 0]))
           \<and> data (blocks dev1 ! bam)
               = foldl clearBit (data (blocks dev ! bam)) (walk (layout dev) ref n)
           \<and> (length buf mod 254 \<noteq> 0
                \<and> payload dev (map (blockNr dev) (walk (layout dev) ref n))
                    = replicate (254 * n) 0
                \<longrightarrow> makeFileEntry dirInit dev name dir (buf @ [0])
                      = makeFileEntry dirInit dev name dir buf)"
proof -
  let ?W = "walk (layout dev) ref n"
  let ?bs = "map (blockNr dev) ?W"
  let ?S = "insert bam (blockNr dev ` set ?W)"
  have lenW: "length ?W = n" by (rule length_walk)
  have W0: "?W ! 0 = ref" using n(2) by (cases n) simp_all
  obtain devA where
    alloc: "allocate dev ref n = Some (devA, ?W)"
    and sA: "sameExcept dev devA ?S"
    and dA: "\<And>k. k < n \<Longrightarrow> data (blocks devA ! blockNr dev (?W ! k))
                 = withLink (if Suc k < n then ?W ! Suc k else (0, 0))
                     (data (blocks dev ! blockNr dev (?W ! k)))"
    and mA: "data (blocks devA ! bam) = foldl clearBit (data (blocks dev ! bam)) ?W"
    using allocate_walk [OF valid free _ n(2) bam ok] ref by auto
  have dist: "distinct ?bs" using ok unfolding refsOk_def by blast
  have inb: "\<forall>b \<in> set ?bs. b < length (blocks dev) \<and> length (data (blocks dev ! b)) = 256"
    using ok len unfolding refsOk_def by auto
  have inbA: "\<forall>b \<in> set ?bs. b < length (blocks devA) \<and> length (data (blocks devA ! b)) = 256"
    using inb sA unfolding sameExcept_def by simp
  have ptrA: "blockPtrRef devA (?W ! k) = Some (?bs ! k)" if "k < length ?W" for k
  proof -
    have "blockNr dev (?W ! k) < length (blocks dev)" using inb that by simp
    then have "blockPtrRef dev (?W ! k) = Some (blockNr dev (?W ! k))"
      by (simp add: blockPtrRef_def blockPtrTS_def blockPtr_def blockNr_def)
    then show ?thesis using sameExcept_ptr(4) [OF sA] that by simp
  qed
  have le: "length buf \<le> 254 * length ?bs"
    using ceil_254 [of "length buf"] n(1) lenW by simp
  obtain devB where
    run: "forM [0..<length buf] (writeStep ?W buf) (writeState ?bs devA 0)
            = Some (writeState ?bs devB (length buf))"
    and sB: "sameExcept devA devB (set ?bs)"
    and pB: "payload devB ?bs = take (length buf) buf @ drop (length buf) (payload devA ?bs)"
    and lB: "\<And>b. b \<in> set ?bs \<Longrightarrow> take 2 (data (blocks devB ! b)) = take 2 (data (blocks devA ! b))"
    using writeLoop [where m = "length buf" and buf = buf and W = ?W, OF dist _ inbA ptrA _ le]
    by auto
  have "0 < length ?W" using n(2) lenW by simp
  from ptrA [OF this]
  have start: "writeState ?bs devA 0 = (devA, 0, blockPtrRef devA (?W ! 0), 2)"
    using n(2) lenW by (simp add: writeState_def)
  obtain it ptr j where fin: "writeState ?bs devB (length buf) = (devB, it, ptr, j)"
    by (cases "length buf = 0") (simp_all add: writeState_def)
  have "?W \<noteq> []" using lenW n(2) by auto
  moreover have nb: "u32 ((length buf + 253) div 254) = n"
    using u32_id [OF n(3)] n(1) by simp
  moreover have an: "allocateN dev n = Some (devA, ?W)"
    using alloc by (simp add: allocateN_def ref)
  ultimately have res: "makeFileEntry dirInit dev name dir buf
      = Some (True, initEntry dirInit devB dir name ref n)"
    unfolding makeFileEntry_def nb Let_def an
    using run start by (simp add: W0 fin)
  have s: "sameExcept dev devB ?S"
    by (rule sameExcept_trans [OF sA sB]) auto
  have "payload devA ?bs = payload dev ?bs"
  proof (rule payload_withLink, rule ballI)
    fix b assume "b \<in> set ?bs"
    then obtain k where k: "k < n" "b = blockNr dev (?W ! k)"
      using lenW by (auto simp: in_set_conv_nth)
    show "\<exists>r. data (blocks devA ! b) = withLink r (data (blocks dev ! b))"
      using dA [OF k(1)] k(2) by blast
  qed
  then have p: "payload devB ?bs = buf @ drop (length buf) (payload dev ?bs)"
    using pB by simp
  have l: "take 2 (data (blocks devB ! blockNr dev (?W ! k)))
         = (if Suc k < n then [of_nat (fst (?W ! Suc k)), of_nat (snd (?W ! Suc k))] else [0, 0])"
    if k: "k < n" for k
  proof -
    have mem: "blockNr dev (?W ! k) \<in> set ?bs" using k lenW by simp
    have "length (data (blocks dev ! blockNr dev (?W ! k))) = 256"
      using bspec [OF inb mem] by blast
    then have "2 \<le> length (data (blocks dev ! blockNr dev (?W ! k)))" by simp
    then have "take 2 (data (blocks devA ! blockNr dev (?W ! k)))
        = [of_nat (fst (if Suc k < n then ?W ! Suc k else (0, 0))),
           of_nat (snd (if Suc k < n then ?W ! Suc k else (0, 0)))]"
      unfolding dA [OF k] by (rule take2_withLink)
    then show ?thesis using lB [OF mem] by simp
  qed
  have "bam \<notin> set ?bs" using ok unfolding refsOk_def by auto
  then have "blocks devB ! bam = blocks devA ! bam" using sB unfolding sameExcept_def by blast
  then have mB: "data (blocks devB ! bam) = foldl clearBit (data (blocks dev ! bam)) ?W"
    using mA by simp
  have snoc: "makeFileEntry dirInit dev name dir (buf @ [0])
      = makeFileEntry dirInit dev name dir buf"
    if nz: "length buf mod 254 \<noteq> 0" and z: "payload dev ?bs = replicate (254 * n) 0"
  proof -
    define m where "m = length buf"
    define q r where "q = m div 254" and "r = m mod 254"
    have m: "m = 254 * q + r" "r < 254" "r \<noteq> 0"
      using nz by (simp_all add: q_def r_def m_def)
    obtain r' where r': "r = Suc r'" using m(3) by (cases r) simp_all
    have "m + 253 = 254 * Suc q + r'" "r' < 254" using m r' by simp_all
    then have "(m + 253) div 254 = Suc q" by simp
    then have nq: "n = Suc q" using n(1) by (simp add: m_def)
    have "Suc m + 253 = 254 * Suc q + r" using m by simp
    then have "(Suc m + 253) div 254 = Suc q" using m(2) by simp
    then have nb2: "u32 ((length (buf @ [0]) + 253) div 254) = n"
      using u32_id [OF n(3)] nq by (simp add: m_def)
    have qW: "m div 254 < length ?W" "length ?bs = length ?W"
      using nq lenW by (simp_all add: q_def)
    have ptrB: "blockPtrRef devB (?W ! (m div 254)) = Some (?bs ! (m div 254))"
      using ptrA [OF qW(1)] sameExcept_ptr(4) [OF sB] by simp
    have inbB: "\<forall>b \<in> set ?bs. length (data (blocks devB ! b)) = 256"
      using inbA sB unfolding sameExcept_def by simp
    have memq: "?bs ! q \<in> set ?bs" by (rule nth_mem) (use qW in \<open>simp add: q_def\<close>)
    have lq: "length (data (blocks devB ! (?bs ! (m div 254)))) = 256"
      using bspec [OF inbB memq] by (simp only: q_def)
    have step: "writeStep ?W (buf @ [0]) m (writeState ?bs devB m)
        = Some (writeState ?bs
                 (setData devB (?bs ! q) ((data (blocks devB ! (?bs ! q)))[2 + r := 0]))
                 (Suc m))"
      using writeStep_state [OF qW ptrB lq, of "buf @ [0]"]
      by (simp add: q_def r_def m_def)
    have lq': "length (data (blocks devB ! (?bs ! q))) = 256"
      by (rule bspec [OF inbB memq])
    have "\<forall>b \<in> set ?bs. length (drop 2 (data (blocks devB ! b))) = 254"
      using inbB by simp
    moreover have "q < length ?bs" using qW by (simp add: q_def)
    ultimately have A: "payload devB ?bs ! (254 * q + r)
        = drop 2 (data (blocks devB ! (?bs ! q))) ! r"
      unfolding payload_def using m(2)
      by (rule concat_nth_uniform
            [where f = "\<lambda>b. drop 2 (data (blocks devB ! b))" and xs = "?bs" and m = 254])
    have "m < 254 * n" using m nq by simp
    then have "payload devB ?bs ! m = 0"
      unfolding p z by (simp add: m_def nth_append)
    then have B: "payload devB ?bs ! (254 * q + r) = 0" unfolding m(1) .
    have "drop 2 (data (blocks devB ! (?bs ! q))) ! r = data (blocks devB ! (?bs ! q)) ! (2 + r)"
      using lq' by (simp add: nth_drop)
    then have cell: "data (blocks devB ! (?bs ! q)) ! (2 + r) = 0"
      using A B by simp
    have "(data (blocks devB ! (?bs ! q)))[2 + r := 0] = data (blocks devB ! (?bs ! q))"
      using cell list_update_id [of "data (blocks devB ! (?bs ! q))" "2 + r"] by simp
    then have same: "setData devB (?bs ! q) ((data (blocks devB ! (?bs ! q)))[2 + r := 0]) = devB"
      by (rule setData_same)
    have "forM [0..<m] (writeStep ?W (buf @ [0])) (writeState ?bs devA 0)
        = forM [0..<m] (writeStep ?W buf) (writeState ?bs devA 0)"
      by (rule forM_cong, rule writeStep_cong) (simp add: nth_append m_def)
    then have "forM [0..<m] (writeStep ?W (buf @ [0])) (writeState ?bs devA 0)
        = Some (writeState ?bs devB m)"
      using run by (simp add: m_def)
    moreover have "[0..<length (buf @ [0])] = [0..<m] @ [m]" by (simp add: m_def)
    ultimately have run2: "forM [0..<length (buf @ [0])] (writeStep ?W (buf @ [0]))
        (writeState ?bs devA 0) = Some (writeState ?bs devB (Suc m))"
      using step same by (simp only: forM_append) simp
    obtain it2 ptr2 j2 where fin2: "writeState ?bs devB (Suc m) = (devB, it2, ptr2, j2)"
      by (simp add: writeState_def)
    have "makeFileEntry dirInit dev name dir (buf @ [0])
        = Some (True, initEntry dirInit devB dir name ref n)"
      unfolding makeFileEntry_def nb2 Let_def an
      using run2 start \<open>?W \<noteq> []\<close> by (simp add: W0 fin2)
    then show ?thesis using res by simp
  qed
  show ?thesis using res s p l mB snoc by blast
qed

lemma readChain_zero: "readChain dev k (0, 0) = []"
  by (cases k) simp_all

lemma readChain_links:
  assumes "length bs = length W" "W \<noteq> []" "length W \<le> fuel"
    and "\<And>k. k < length W \<Longrightarrow>
           W ! k \<noteq> (0, 0) \<and> blockPtrRef dev (W ! k) = Some (bs ! k)
           \<and> linkAt dev (bs ! k) = (if Suc k < length W then W ! Suc k else (0, 0))"
  shows "readChain dev fuel (W ! 0) = payload dev bs"
  using assms
proof (induction W arbitrary: bs fuel)
  case Nil
  then show ?case by simp
next
  case (Cons r W)
  obtain b bs' where bs: "bs = b # bs'" using Cons.prems(1) by (cases bs) simp_all
  obtain f where fuel: "fuel = Suc f" using Cons.prems(3) by (cases fuel) simp_all
  have 0: "r \<noteq> (0, 0)" "blockPtrRef dev r = Some b"
    "linkAt dev b = (if W \<noteq> [] then W ! 0 else (0, 0))"
    using Cons.prems(4) [of 0] bs by simp_all
  have step: "readChain dev fuel ((r # W) ! 0)
      = drop 2 (data (blocks dev ! b)) @ readChain dev f (linkAt dev b)"
    using 0 fuel by simp
  show ?case
  proof (cases "W = []")
    case True
    then have "bs' = []" using Cons.prems(1) bs by simp
    then show ?thesis using step 0(3) True bs by (simp add: readChain_zero payload_def)
  next
    case False
    have "readChain dev f (W ! 0) = payload dev bs'"
    proof (rule Cons.IH [OF _ False])
      show "length bs' = length W" using Cons.prems(1) bs by simp
      show "length W \<le> f" using Cons.prems(3) fuel by simp
      fix k assume k: "k < length W"
      then show "W ! k \<noteq> (0, 0) \<and> blockPtrRef dev (W ! k) = Some (bs' ! k)
           \<and> linkAt dev (bs' ! k) = (if Suc k < length W then W ! Suc k else (0, 0))"
        using Cons.prems(4) [of "Suc k"] bs by simp
    qed
    then show ?thesis using step 0(3) False bs by (simp add: payload_def)
  qed
qed

lemma blocksBefore_Suc: "1 \<le> t \<Longrightarrow> blocksBefore (Suc t) = blocksBefore t + numSectors t"
  by (simp add: blocksBefore_def)

lemma blocksBefore_mono:
  assumes "1 \<le> t" "t \<le> t'"
  shows "blocksBefore t \<le> blocksBefore t'"
  using assms(2,1)
proof (induction t' rule: dec_induct)
  case base
  show ?case by simp
next
  case (step n)
  then show ?case using blocksBefore_Suc [of n] by simp
qed

lemma blocksBefore_36: "blocksBefore 36 = 683"
  by code_simp

lemma d64_nr_eq: "d64_isTrackSectorPair t s \<Longrightarrow> d64_translateBlockNr t s = blocksBefore t + s"
  by (simp add: d64_translateBlockNr_def)

lemma d64_nr_bound:
  assumes "d64_isTrackSectorPair t s"
  shows "d64_translateBlockNr t s < blocksBefore (Suc t)"
  using assms blocksBefore_Suc [of t]
  by (simp add: d64_nr_eq d64_isTrackSectorPair_def)

lemma d64_nr_less:
  assumes "d64_isTrackSectorPair t s"
  shows "d64_translateBlockNr t s < 683"
proof -
  have "1 \<le> Suc t" "Suc t \<le> 36" using assms by (simp_all add: d64_isTrackSectorPair_def)
  then have "blocksBefore (Suc t) \<le> blocksBefore 36" by (rule blocksBefore_mono)
  then show ?thesis using d64_nr_bound [OF assms] blocksBefore_36 by linarith
qed

lemma d64_nr_track:
  assumes "d64_isTrackSectorPair t s" "d64_isTrackSectorPair t' s'" "t < t'"
  shows "d64_translateBlockNr t s < d64_translateBlockNr t' s'"
proof -
  have "1 \<le> Suc t" "Suc t \<le> t'" using assms by (simp_all add: d64_isTrackSectorPair_def)
  then have "blocksBefore (Suc t) \<le> blocksBefore t'" by (rule blocksBefore_mono)
  then show ?thesis using d64_nr_bound [OF assms(1)] d64_nr_eq [OF assms(2)] by linarith
qed

lemma d64_nr_inj:
  assumes "d64_isTrackSectorPair t s" "d64_isTrackSectorPair t' s'"
    and "d64_translateBlockNr t s = d64_translateBlockNr t' s'"
  shows "t = t' \<and> s = s'"
proof -
  have "\<not> t < t'" using d64_nr_track [OF assms(1,2)] assms(3) by auto
  moreover have "\<not> t' < t" using d64_nr_track [OF assms(2,1)] assms(3) by auto
  ultimately have "t = t'" by simp
  then show ?thesis using assms by (simp add: d64_nr_eq)
qed

lemma walk164_data: "list_all dataRef (walk layout_SS_SD (1, 0) 164)"
  by code_simp

lemma walk164_distinct: "distinct (walk layout_SS_SD (1, 0) 164)"
  by code_simp

lemma length_bamEntries: "length (concat (map bamEntry ts)) = 4 * length ts"
  by (induction ts) (simp_all add: bamEntry_def Let_def)

lemma length_freshBam: "length freshBam = 256"
  by (simp add: freshBam_def length_bamEntries)

lemma freshDisk_simps:
  "layout freshDisk = layout_SS_SD"
  "length (blocks freshDisk) = 683"
  "data (blocks freshDisk ! 357) = freshBam"
  "b < 683 \<Longrightarrow> b \<noteq> 357 \<Longrightarrow> data (blocks freshDisk ! b) = replicate 256 0"
  by (simp_all add: freshDisk_def setData_def makeWithFormat_simps layout_SS_SD_simps
      FSBlock_new_def)

lemma freshDisk_length:
  assumes "b < 683"
  shows "length (data (blocks freshDisk ! b)) = 256"
  using assms freshDisk_simps(3) freshDisk_simps(4) [of b] length_freshBam
  by (cases "b = 357") simp_all

lemma freshDisk_bam: "bamPtr freshDisk = Some 357"
  by (simp add: bamPtr_def blockPtrTS_def blockPtr_def freshDisk_simps layout_SS_SD_simps
      d64_blockNr)

lemma freshDisk_dir: "blockPtrTS freshDisk 18 1 = Some 358"
  by (simp add: blockPtrTS_def blockPtr_def freshDisk_simps layout_SS_SD_simps d64_blockNr)

lemma freshBam_5: "freshBam ! 5 = 255"
proof -
  have "[1..<36] = 1 # [2..<36]" by (simp add: upt_conv_Cons)
  then show ?thesis unfolding freshBam_def by (simp add: bamEntry_def numSectors_def)
qed

lemma freshDisk_free: "isFreeRef freshDisk (1, 0) = Some True"
proof -
  have "u32 5 = 5" by (rule u32_id) simp
  moreover have "d64_isTrackSectorPair 1 0"
    by (simp add: d64_isTrackSectorPair_def numSectors_def)
  moreover have "bit (255 :: u8) (0 :: nat)" by simp
  ultimately show ?thesis
    by (simp add: isFreeRef_def locateAllocationBitRef_def bamByte_def freshDisk_bam
        freshDisk_simps layout_SS_SD_simps length_freshBam freshBam_5)
qed

lemma dataRef_facts:
  assumes "dataRef r"
  shows "d64_isTrackSectorPair (fst r) (snd r)"
    "fst r < 256" "snd r < 256" "r \<noteq> (0, 0)"
    "4 * fst r + 1 + snd r div 8 < 256"
    "d64_translateBlockNr (fst r) (snd r) < 683"
    "d64_translateBlockNr (fst r) (snd r) \<noteq> 357"
    "d64_translateBlockNr (fst r) (snd r) \<noteq> 358"
proof -
  show v: "d64_isTrackSectorPair (fst r) (snd r)" using assms by (simp add: dataRef_def)
  then have t: "1 \<le> fst r" "fst r \<le> 35" "snd r < 24"
    using d64_sectors [OF v] by (simp_all add: d64_isTrackSectorPair_def)
  show "fst r < 256" "snd r < 256" using t by simp_all
  show "r \<noteq> (0, 0)" using t by auto
  show "4 * fst r + 1 + snd r div 8 < 256" using t by simp
  show "d64_translateBlockNr (fst r) (snd r) < 683" by (rule d64_nr_less [OF v])
  have v0: "d64_isTrackSectorPair 18 0" "d64_isTrackSectorPair 18 1"
    by (simp_all add: d64_isTrackSectorPair_def numSectors_def)
  have n18: "fst r \<noteq> 18" using assms by (simp add: dataRef_def)
  show "d64_translateBlockNr (fst r) (snd r) \<noteq> 357"
    using d64_nr_inj [OF v v0(1)] n18 d64_blockNr(1) by auto
  show "d64_translateBlockNr (fst r) (snd r) \<noteq> 358"
    using d64_nr_inj [OF v v0(2)] n18 d64_blockNr(2) by auto
qed

lemma walk_prefix:
  assumes "n \<le> 164"
  shows "distinct (walk layout_SS_SD (1, 0) n)"
    "\<forall>r \<in> set (walk layout_SS_SD (1, 0) n). dataRef r"
proof -
  have t: "walk layout_SS_SD (1, 0) n = take n (walk layout_SS_SD (1, 0) 164)"
    using take_walk [OF assms] by simp
  show "distinct (walk layout_SS_SD (1, 0) n)"
    unfolding t by (rule distinct_take [OF walk164_distinct])
  have "set (walk layout_SS_SD (1, 0) n) \<subseteq> set (walk layout_SS_SD (1, 0) 164)"
    unfolding t by (rule set_take_subset)
  then show "\<forall>r \<in> set (walk layout_SS_SD (1, 0) n). dataRef r"
    using walk164_data unfolding list_all_iff by blast
qed

lemma freshDisk_blockNr: "blockNr freshDisk r = d64_translateBlockNr (fst r) (snd r)"
  by (simp add: blockNr_def freshDisk_simps layout_SS_SD_simps)

lemma freshDisk_refsOk:
  assumes "n \<le> 164"
  shows "refsOk freshDisk 357 (walk layout_SS_SD (1, 0) n)"
proof -
  let ?W = "walk layout_SS_SD (1, 0) n"
  note w = walk_prefix [OF assms]
  have "inj_on (blockNr freshDisk) (set ?W)"
  proof (rule inj_onI)
    fix x y assume "x \<in> set ?W" "y \<in> set ?W" "blockNr freshDisk x = blockNr freshDisk y"
    then have "fst x = fst y \<and> snd x = snd y"
      using w(2) dataRef_facts(1) d64_nr_inj [of "fst x" "snd x" "fst y" "snd y"]
      by (simp add: freshDisk_blockNr)
    then show "x = y" by (simp add: prod_eq_iff)
  qed
  then have d: "distinct (map (blockNr freshDisk) ?W)" using w(1) by (simp add: distinct_map)
  have e: "isTrackSectorPair (layout freshDisk) (fst r) (snd r)
            \<and> u32 (4 * fst r + 1 + snd r div 8) < length (data (blocks freshDisk ! 357))
            \<and> blockNr freshDisk r < length (blocks freshDisk)
            \<and> blockNr freshDisk r \<noteq> 357
            \<and> 2 \<le> length (data (blocks freshDisk ! blockNr freshDisk r))"
    if "r \<in> set ?W" for r
  proof -
    have g: "dataRef r" using w(2) that by blast
    note f = dataRef_facts [OF g]
    have "4 * fst r + 1 + snd r div 8 < 2 ^ 32" using f(5) by simp
    then have "u32 (4 * fst r + 1 + snd r div 8) = 4 * fst r + 1 + snd r div 8"
      by (rule u32_id)
    then show ?thesis
      using f freshDisk_length [OF f(6)]
      by (simp add: freshDisk_simps layout_SS_SD_simps freshDisk_blockNr length_freshBam)
  qed
  show ?thesis unfolding refsOk_def using d e by blast
qed

lemma makeFile_first_slot:
  assumes "blockPtrTS dev 18 1 = Some p" "isEmpty (entryBytes dev (p, 0))"
  shows "makeFile dirInit isEmpty dev name buf = makeFileEntry dirInit dev name (p, 0) buf"
  unfolding makeFile_def assms(1)
  by (subst makeFileLoop.simps) (simp add: assms(2))

lemma length_padName: "length (padName name) = 16"
  by (simp add: padName_def)

lemma dirInitD64_zero:
  "dirInitD64 name (1, 0) n (replicate 32 0)
     = [0, 0, 0x82, 1, 0] @ padName name @ replicate 9 0 @ [of_nat (n mod 256), of_nat (n div 256)]"
  by (simp add: dirInitD64_def numeral_2_eq_2)

lemma entry_nth:
  fixes P :: "u8 list"
  assumes "length P = 16"
  shows "([a0, a1, a2, a3, a4] @ P @ replicate 9 z @ [c0, c1]) ! 2 = a2"
    "([a0, a1, a2, a3, a4] @ P @ replicate 9 z @ [c0, c1]) ! 3 = a3"
    "([a0, a1, a2, a3, a4] @ P @ replicate 9 z @ [c0, c1]) ! 4 = a4"
    "([a0, a1, a2, a3, a4] @ P @ replicate 9 z @ [c0, c1]) ! 30 = c0"
    "([a0, a1, a2, a3, a4] @ P @ replicate 9 z @ [c0, c1]) ! 31 = c1"
    "length ([a0, a1, a2, a3, a4] @ P @ replicate 9 z @ [c0, c1]) = 32"
  using assms by (simp_all add: nth_append)

lemma payload_zero:
  assumes "\<forall>b \<in> set bs. data (blocks dev ! b) = replicate 256 0"
  shows "payload dev bs = replicate (254 * length bs) 0"
  using assms
proof (induction bs)
  case Nil
  show ?case by (simp add: payload_def)
next
  case (Cons b bs)
  then have "payload dev bs = replicate (254 * length bs) 0" by simp
  moreover have "payload dev (b # bs) = drop 2 (data (blocks dev ! b)) @ payload dev bs"
    by (simp add: payload_def)
  moreover have "drop 2 (data (blocks dev ! b)) = replicate 254 0" using Cons.prems by simp
  ultimately show ?case by (simp add: replicate_add [symmetric])
qed

lemma payload_cong:
  assumes "\<forall>b \<in> set bs. blocks dev' ! b = blocks dev ! b"
  shows "payload dev' bs = payload dev bs"
  using assms by (induction bs) (simp_all add: payload_def)

lemma unat_byte: "n < 256 \<Longrightarrow> unat (of_nat n :: u8) = n"
  by (simp add: unsigned_of_nat take_bit_nat_eq_self)

lemma linkAt_take2:
  assumes "take 2 (data (blocks dev ! b)) = [of_nat t, of_nat s]" "t < 256" "s < 256"
  shows "linkAt dev b = (t, s)"
proof -
  have "take 2 (data (blocks dev ! b)) ! 0 = data (blocks dev ! b) ! 0"
    "take 2 (data (blocks dev ! b)) ! 1 = data (blocks dev ! b) ! 1"
    by simp_all
  then have "data (blocks dev ! b) ! 0 = of_nat t" "data (blocks dev ! b) ! 1 = of_nat s"
    unfolding assms(1) by simp_all
  then show ?thesis unfolding linkAt_def using assms(2,3) by (simp add: unat_byte)
qed

lemma ceil_164:
  assumes "0 < (c::nat)" "c \<le> 164 * 254"
  shows "0 < (c + 253) div 254" "(c + 253) div 254 \<le> 164"
proof -
  define q where "q = (c + 253) div 254"
  define r where "r = (c + 253) mod 254"
  have "c + 253 = 254 * q + r" "r < 254" by (simp_all add: q_def r_def)
  then show "0 < q" "q \<le> 164" using assms by linarith+
qed

lemma makeFile_fresh:
  assumes len: "0 < length buf" "length buf \<le> 164 * 254"
    and n: "n = (length buf + 253) div 254"
    and W: "W = walk layout_SS_SD (1, 0) n"
  shows "\<exists>dev'. makeFile dirInitD64 isEmptyZero freshDisk name buf = Some (True, dev')
           \<and> layout dev' = layout_SS_SD \<and> length (blocks dev') = 683
           \<and> data (blocks dev' ! 358)
               = dirInitD64 name (1, 0) n (replicate 32 0) @ replicate 224 0
           \<and> data (blocks dev' ! 357) = foldl clearBit freshBam W
           \<and> (\<forall>k<n. take 2 (data (blocks dev' ! blockNr freshDisk (W ! k)))
                 = (if Suc k < n then [of_nat (fst (W ! Suc k)), of_nat (snd (W ! Suc k))]
                    else [0, 0]))
           \<and> payload dev' (map (blockNr freshDisk) W)
               = buf @ replicate (254 * n - length buf) 0
           \<and> (length buf mod 254 \<noteq> 0
                \<longrightarrow> makeFile dirInitD64 isEmptyZero freshDisk name (buf @ [0])
                      = makeFile dirInitD64 isEmptyZero freshDisk name buf)"
proof -
  let ?bs = "map (blockNr freshDisk) W"
  let ?S = "insert 357 (blockNr freshDisk ` set W)"
  have n0: "0 < n" and n164: "n \<le> 164" using ceil_164 [OF len] n by simp_all
  have n32: "n < 2 ^ 32" using n164 by simp
  have lay: "layout freshDisk = layout_SS_SD" by (rule freshDisk_simps(1))
  have W': "walk (layout freshDisk) (1, 0) n = W" unfolding lay W ..
  have lenW: "length W = n" unfolding W by (rule length_walk)
  note w = walk_prefix [OF n164, folded W]
  have good: "dataRef r" if "r \<in> set W" for r using w(2) that by blast
  have valid: "isValidRef (layout freshDisk) (1, 0)"
    by (simp add: lay layout_SS_SD_simps d64_isTrackSectorPair_def numSectors_def)
  have ok: "refsOk freshDisk 357 (walk (layout freshDisk) (1, 0) n)"
    unfolding W' unfolding W by (rule freshDisk_refsOk [OF n164])
  have l256: "\<forall>r \<in> set (walk (layout freshDisk) (1, 0) n).
      length (data (blocks freshDisk ! blockNr freshDisk r)) = 256"
    unfolding W'
  proof
    fix r assume "r \<in> set W"
    then have "blockNr freshDisk r < 683"
      using dataRef_facts(6) [OF good] by (simp add: freshDisk_blockNr)
    then show "length (data (blocks freshDisk ! blockNr freshDisk r)) = 256"
      by (rule freshDisk_length)
  qed
  obtain dev1 where
    res: "makeFileEntry dirInitD64 freshDisk name (358, 0) buf
            = Some (True, initEntry dirInitD64 dev1 (358, 0) name (1, 0) n)"
    and s: "sameExcept freshDisk dev1 ?S"
    and p: "payload dev1 ?bs = buf @ drop (length buf) (payload freshDisk ?bs)"
    and l: "\<And>k. k < n \<Longrightarrow> take 2 (data (blocks dev1 ! blockNr freshDisk (W ! k)))
               = (if Suc k < n then [of_nat (fst (W ! Suc k)), of_nat (snd (W ! Suc k))]
                  else [0, 0])"
    and m: "data (blocks dev1 ! 357) = foldl clearBit (data (blocks freshDisk ! 357)) W"
    and sn: "length buf mod 254 \<noteq> 0 \<and> payload freshDisk ?bs = replicate (254 * n) 0
               \<longrightarrow> makeFileEntry dirInitD64 freshDisk name (358, 0) (buf @ [0])
                     = makeFileEntry dirInitD64 freshDisk name (358, 0) buf"
    using makeFileEntry_chain [OF refl valid freshDisk_free freshDisk_bam n n0 n32 ok l256,
        of dirInitD64 name "(358, 0)"]
    unfolding W' by blast
  define dev' where "dev' = initEntry dirInitD64 dev1 (358, 0) name (1, 0) n"
  have nS: "358 \<notin> ?S"
  proof -
    have "blockNr freshDisk r \<noteq> 358" if "r \<in> set W" for r
      using dataRef_facts(8) [OF good [OF that]] by (simp add: freshDisk_blockNr)
    then show ?thesis by auto
  qed
  have b358: "blocks dev1 ! 358 = blocks freshDisk ! 358"
    using s nS unfolding sameExcept_def by blast
  have d358: "data (blocks dev1 ! 358) = replicate 256 0"
    unfolding b358 by (rule freshDisk_simps(4)) simp_all
  have len1: "length (blocks dev1) = 683"
    using s unfolding sameExcept_def by (simp add: freshDisk_simps)
  have lay1: "layout dev1 = layout_SS_SD"
    using s unfolding sameExcept_def by (simp add: freshDisk_simps)
  have dev'_eq: "dev' = setData dev1 358
      (dirInitD64 name (1, 0) n (replicate 32 0) @ replicate 224 0)"
    unfolding dev'_def initEntry_def by (simp add: d358 Let_def)
  have other: "blocks dev' ! b = blocks dev1 ! b" if "b \<noteq> 358" for b
    unfolding dev'_eq using that by (simp add: setData_simps)
  have slot: "makeFile dirInitD64 isEmptyZero freshDisk name b
      = makeFileEntry dirInitD64 freshDisk name (358, 0) b" for b
  proof -
    have "entryBytes freshDisk (358, 0) = replicate 32 0"
      unfolding entryBytes_def using freshDisk_simps(4) [of 358] by simp
    then have "isEmptyZero (entryBytes freshDisk (358, 0))"
      by (simp add: isEmptyZero_simps)
    then show ?thesis
      by (rule makeFile_first_slot [where isEmpty = isEmptyZero, OF freshDisk_dir])
  qed
  have mf: "makeFile dirInitD64 isEmptyZero freshDisk name buf = Some (True, dev')"
    using slot [of buf] res by (simp add: dev'_def)
  have f1: "layout dev' = layout_SS_SD" "length (blocks dev') = 683"
    unfolding dev'_eq by (simp_all add: setData_simps lay1 len1)
  have f2: "data (blocks dev' ! 358)
      = dirInitD64 name (1, 0) n (replicate 32 0) @ replicate 224 0"
    unfolding dev'_eq using len1 by (simp add: setData_simps)
  have f3: "data (blocks dev' ! 357) = foldl clearBit freshBam W"
    using other [of 357] m by (simp add: freshDisk_simps)
  have nb: "blockNr freshDisk r \<noteq> 358" if "r \<in> set W" for r
    using dataRef_facts(8) [OF good [OF that]] by (simp add: freshDisk_blockNr)
  have f4: "take 2 (data (blocks dev' ! blockNr freshDisk (W ! k)))
      = (if Suc k < n then [of_nat (fst (W ! Suc k)), of_nat (snd (W ! Suc k))] else [0, 0])"
    if "k < n" for k
  proof -
    have "W ! k \<in> set W" using that lenW by simp
    then show ?thesis using other [OF nb] l [OF that] by simp
  qed
  have "payload dev' ?bs = payload dev1 ?bs"
    by (rule payload_cong) (use other nb in auto)
  moreover have "payload freshDisk ?bs = replicate (254 * length ?bs) 0"
  proof (rule payload_zero, rule ballI)
    fix b assume "b \<in> set ?bs"
    then obtain r where r: "r \<in> set W" "b = blockNr freshDisk r" by auto
    have "b < 683" "b \<noteq> 357"
      using dataRef_facts(6,7) [OF good [OF r(1)]] r(2) by (simp_all add: freshDisk_blockNr)
    then show "data (blocks freshDisk ! b) = replicate 256 0" by (rule freshDisk_simps(4))
  qed
  ultimately have f5: "payload dev' ?bs = buf @ replicate (254 * n - length buf) 0"
    and z: "payload freshDisk ?bs = replicate (254 * n) 0"
    using p lenW by simp_all
  have f6: "makeFile dirInitD64 isEmptyZero freshDisk name (buf @ [0])
      = makeFile dirInitD64 isEmptyZero freshDisk name buf" if "length buf mod 254 \<noteq> 0"
    unfolding slot using sn z that by blast
  show ?thesis using mf f1 f2 f3 f4 f5 f6 by blast
qed

lemma entry_not_empty: "\<not> isEmptyZero (dirInitD64 name (1, 0) n (replicate 32 0))"
  unfolding dirInitD64_zero isEmptyZero_def by simp

lemma length_entry: "length (dirInitD64 name (1, 0) n (replicate 32 0)) = 32"
  unfolding dirInitD64_zero by (rule entry_nth(6) [OF length_padName])

lemma entry_first: "firstDataRef (dirInitD64 name (1, 0) n (replicate 32 0)) = (1, 0)"
  unfolding dirInitD64_zero firstDataRef_def
  by (simp only: entry_nth(2,3) [OF length_padName]) simp

lemma entry_size:
  assumes "n < 65536"
  shows "fileSize (dirInitD64 name (1, 0) n (replicate 32 0)) = n"
proof -
  have "n mod 256 < 256" "n div 256 < 256" using assms by simp_all
  then have "unat (of_nat (n mod 256) :: u8) = n mod 256"
    "unat (of_nat (n div 256) :: u8) = n div 256"
    by (simp_all only: unat_byte)
  then show ?thesis
    unfolding dirInitD64_zero fileSize_def
    by (simp only: entry_nth(4,5) [OF length_padName]) simp
qed

lemma written_scan:
  assumes "layout dev = layout_SS_SD" "length (blocks dev) = 683"
    and "data (blocks dev ! 358) = E @ replicate 224 0" "length E = 32" "\<not> isEmptyZero E"
  shows "blockPtrTS dev 18 1 = Some 358"
    "entryBytes dev (358, 0) = E"
    "entryBytes dev (358, 1) = replicate 32 0"
    "scanDirectory isEmptyZero isHidden dev False = [(358, 0)]"
proof -
  show p: "blockPtrTS dev 18 1 = Some 358"
    by (simp add: blockPtrTS_def blockPtr_def assms(1,2) layout_SS_SD_simps d64_blockNr)
  show e0: "entryBytes dev (358, 0) = E"
    by (simp add: entryBytes_def assms(3,4))
  show e1: "entryBytes dev (358, 1) = replicate 32 0"
    by (simp add: entryBytes_def assms(3,4))
  have e1': "entryBytes dev (358, Suc 0) = replicate 32 0" using e1 by simp
  show "scanDirectory isEmptyZero isHidden dev False = [(358, 0)]"
    unfolding scanDirectory_def p
    apply (subst scanLoop.simps)
    apply (simp add: e0 assms(5))
    apply (subst scanLoop.simps)
    apply (simp add: e1' isEmptyZero_simps)
    done
qed

lemma written_chain:
  assumes lay: "layout dev = layout_SS_SD" and len: "length (blocks dev) = 683"
    and n: "0 < n" "n \<le> 164" and W: "W = walk layout_SS_SD (1, 0) n"
    and links: "\<And>k. k < n \<Longrightarrow> take 2 (data (blocks dev ! blockNr freshDisk (W ! k)))
               = (if Suc k < n then [of_nat (fst (W ! Suc k)), of_nat (snd (W ! Suc k))]
                  else [0, 0])"
  shows "\<forall>k<n. linkAt dev (blockNr dev (W ! k)) = (if Suc k < n then W ! Suc k else (0, 0))"
    "readFile dev (1, 0) = payload dev (map (blockNr freshDisk) W)"
proof -
  let ?bs = "map (blockNr freshDisk) W"
  have lenW: "length W = n" unfolding W by (rule length_walk)
  note w = walk_prefix [OF n(2), folded W]
  have good: "dataRef (W ! k)" if "k < n" for k using w(2) that lenW by simp
  have bn: "blockNr dev r = blockNr freshDisk r" for r
    by (simp add: blockNr_def lay freshDisk_simps)
  have la: "linkAt dev (blockNr freshDisk (W ! k)) = (if Suc k < n then W ! Suc k else (0, 0))"
    if k: "k < n" for k
  proof (cases "Suc k < n")
    case True
    note f = dataRef_facts [OF good [OF True]]
    have "take 2 (data (blocks dev ! blockNr freshDisk (W ! k)))
        = [of_nat (fst (W ! Suc k)), of_nat (snd (W ! Suc k))]"
      using links [OF k] True by simp
    from linkAt_take2 [OF this f(2,3)] show ?thesis using True by simp
  next
    case False
    have "take 2 (data (blocks dev ! blockNr freshDisk (W ! k))) = [of_nat 0, of_nat 0]"
      using links [OF k] False by simp
    from linkAt_take2 [OF this] show ?thesis using False by simp
  qed
  show "\<forall>k<n. linkAt dev (blockNr dev (W ! k)) = (if Suc k < n then W ! Suc k else (0, 0))"
    using la by (simp add: bn)
  have W0: "W ! 0 = (1, 0)" using n(1) unfolding W by (cases n) simp_all
  have "readChain dev (length (blocks dev)) (W ! 0) = payload dev ?bs"
  proof (rule readChain_links)
    show "length ?bs = length W" by simp
    show "W \<noteq> []" using lenW n(1) by auto
    show "length W \<le> length (blocks dev)" using lenW n(2) len by simp
    fix k assume "k < length W"
    then have k: "k < n" using lenW by simp
    note f = dataRef_facts [OF good [OF k]]
    have "blockPtrRef dev (W ! k) = Some (blockNr freshDisk (W ! k))"
      using f(6)
      by (simp add: blockPtrRef_def blockPtrTS_def blockPtr_def lay len layout_SS_SD_simps
          freshDisk_blockNr)
    then show "W ! k \<noteq> (0, 0) \<and> blockPtrRef dev (W ! k) = Some (?bs ! k)
        \<and> linkAt dev (?bs ! k) = (if Suc k < length W then W ! Suc k else (0, 0))"
      using f(4) la [OF k] k lenW by simp
  qed
  then show "readFile dev (1, 0) = payload dev ?bs"
    unfolding readFile_def W0 .
qed

lemma clearBit_freeBit:
  assumes v: "d64_isTrackSectorPair (fst r) (snd r)"
    and v': "d64_isTrackSectorPair (fst r') (snd r')"
    and len: "length d = 256"
  shows "freeBit (clearBit d r) r' = (freeBit d r' \<and> r' \<noteq> r)"
proof -
  define t q b where "t = fst r" and "q = snd r div 8" and "b = snd r mod 8"
  define t' q' b' where "t' = fst r'" and "q' = snd r' div 8" and "b' = snd r' mod 8"
  define i i' where "i = 4 * t + 1 + q" and "i' = 4 * t' + 1 + q'"
  have s: "snd r = 8 * q + b" "snd r' = 8 * q' + b'"
    by (simp_all add: q_def b_def q'_def b'_def)
  have "snd r < 24" "snd r' < 24" using d64_sectors v v' by blast+
  then have q: "q < 3" "q' < 3" unfolding q_def q'_def by simp_all
  have "t \<le> 35" "t' \<le> 35"
    using v v' by (simp_all add: d64_isTrackSectorPair_def t_def t'_def)
  then have i: "i < 256" "i' < 256" "i < 2 ^ 32" using q by (simp_all add: i_def i'_def)
  have ui: "u32 i = i" by (rule u32_id [OF i(3)])
  have c: "4 * (i div 4) = 4 * t" using q(1) by (simp add: i_def)
  have ne: "i' \<noteq> 4 * t" using q(2) unfolding i'_def by presburger
  have eq: "(i' = i \<and> b' = b) = (r' = r)"
  proof
    assume a: "i' = i \<and> b' = b"
    then have e: "4 * t' + 1 + q' = 4 * t + 1 + q" by (simp add: i_def i'_def)
    then have "t' = t" using q by linarith
    moreover from this have "q' = q" using e by simp
    ultimately have "fst r' = fst r" "snd r' = snd r" using a s by (simp_all add: t_def t'_def)
    then show "r' = r" by (simp add: prod_eq_iff)
  next
    assume "r' = r"
    then show "i' = i \<and> b' = b"
      by (simp add: i_def i'_def t_def t'_def q_def q'_def b_def b'_def)
  qed
  have fb: "freeBit x r' = bit (x ! i') b'" "freeBit x r = bit (x ! i) b" for x
    by (simp_all add: freeBit_def i_def i'_def t_def t'_def q_def q'_def b_def b'_def)
  have cb: "clearBit d r = (if bit (d ! i) b then markUsed d i b else d)"
    unfolding clearBit_def Let_def i_def t_def q_def b_def [symmetric]
    using ui unfolding i_def t_def q_def by simp
  show ?thesis
  proof (cases "bit (d ! i) b")
    case False
    then have "clearBit d r = d" using cb by simp
    moreover have "r' = r \<Longrightarrow> \<not> freeBit d r'" using False fb(2) by simp
    ultimately show ?thesis by auto
  next
    case True
    let ?d1 = "d[i := unset_bit b (d ! i)]"
    have "clearBit d r = ?d1[4 * t := ?d1 ! (4 * t) - 1]"
      using cb True c by (simp add: markUsed_def Let_def)
    then have "clearBit d r ! i' = ?d1 ! i'" using ne by simp
    also have "\<dots> = (if i' = i then unset_bit b (d ! i) else d ! i')"
      using i(1) len by (simp add: nth_list_update)
    finally have "freeBit (clearBit d r) r'
        = (if i' = i then bit (d ! i) b' \<and> b' \<noteq> b else bit (d ! i') b')"
      unfolding fb by (auto simp add: bit_unset_bit_iff)
    then show ?thesis unfolding fb(1) [of d] using eq by auto
  qed
qed

lemma foldl_clearBit_length: "length (foldl clearBit d rs) = length d"
  by (induction rs arbitrary: d) (simp_all add: length_clearBit)

lemma foldl_clearBit_freeBit:
  assumes "\<forall>r \<in> set rs. d64_isTrackSectorPair (fst r) (snd r)"
    and "d64_isTrackSectorPair (fst r') (snd r')" and "length d = 256"
  shows "freeBit (foldl clearBit d rs) r' = (freeBit d r' \<and> r' \<notin> set rs)"
  using assms(1,3)
proof (induction rs arbitrary: d)
  case Nil
  show ?case by simp
next
  case (Cons r rs)
  have "freeBit (foldl clearBit (clearBit d r) rs) r'
      = (freeBit (clearBit d r) r' \<and> r' \<notin> set rs)"
    using Cons.prems by (intro Cons.IH) (simp_all add: length_clearBit)
  also have "freeBit (clearBit d r) r' = (freeBit d r' \<and> r' \<noteq> r)"
    using Cons.prems assms(2) by (intro clearBit_freeBit) simp_all
  finally show ?case by auto
qed

lemma isFreeRef_freeBit:
  assumes "layout dev = layout_SS_SD" "length (blocks dev) = 683"
    and "length (data (blocks dev ! 357)) = 256"
    and v: "d64_isTrackSectorPair (fst r) (snd r)"
  shows "isFreeRef dev r = Some (freeBit (data (blocks dev ! 357)) r)"
proof -
  define i where "i = 4 * fst r + 1 + snd r div 8"
  have "snd r < 24" using d64_sectors v by blast
  moreover have "fst r \<le> 35" using v by (simp add: d64_isTrackSectorPair_def)
  ultimately have i: "i < 256" by (simp add: i_def)
  then have "i < 2 ^ 32" by simp
  then have ui: "u32 i = i" by (rule u32_id)
  have bam: "bamPtr dev = Some 357"
    by (simp add: bamPtr_def blockPtrTS_def blockPtr_def assms(1,2) layout_SS_SD_simps
        d64_blockNr)
  have loc: "locateAllocationBitRef dev r = Some (i, snd r mod 8)"
    unfolding locateAllocationBitRef_def i_def [symmetric] ui
    using v by (simp add: assms(1) layout_SS_SD_simps)
  have bb: "bamByte dev i = Some (data (blocks dev ! 357) ! i)"
    using i by (simp add: bamByte_def bam assms(3))
  show ?thesis
    unfolding isFreeRef_def loc freeBit_def i_def [symmetric] by (simp add: bb)
qed

lemma bamEntry_bit:
  assumes "s < numSectors t"
  shows "bit (bamEntry t ! (1 + s div 8)) (s mod 8)"
proof -
  define ns where "ns = numSectors t"
  define q b where "q = s div 8" and "b = s mod 8"
  have s: "s = 8 * q + b" "b < 8" by (simp_all add: q_def b_def)
  have "ns \<le> 21" by (simp add: ns_def numSectors_def)
  then have q: "q < 3" using assms s unfolding ns_def [symmetric] by linarith
  have m: "2 ^ ns - 1 = (mask ns :: nat)" by (simp add: mask_eq_exp_minus_1)
  have e: "bamEntry t = [of_nat ns, of_nat (take_bit 8 (mask ns :: nat)),
      of_nat (take_bit 8 (drop_bit 8 (mask ns :: nat))), of_nat (drop_bit 16 (mask ns :: nat))]"
    unfolding bamEntry_def Let_def ns_def [symmetric] m
    by (simp add: take_bit_eq_mod drop_bit_eq_div)
  have lt: "8 * q + b < ns" using assms s by (simp add: ns_def)
  consider "q = 0" | "q = 1" | "q = 2" using q by linarith
  then have "bit (bamEntry t ! (1 + q)) b"
  proof cases
    case 1
    then show ?thesis using lt s(2)
      unfolding e by (simp add: bit_of_nat_iff bit_take_bit_iff bit_mask_iff)
  next
    case 2
    then show ?thesis using lt s(2)
      unfolding e by (simp add: bit_of_nat_iff bit_take_bit_iff bit_drop_bit_eq bit_mask_iff)
  next
    case 3
    then show ?thesis using lt s(2)
      unfolding e
      by (simp add: bit_of_nat_iff bit_take_bit_iff bit_drop_bit_eq bit_mask_iff numeral_2_eq_2)
  qed
  then show ?thesis unfolding q_def b_def .
qed

lemma length_bamEntry: "length (bamEntry t) = 4"
  by (simp add: bamEntry_def Let_def)

lemma freshBam_free:
  assumes "d64_isTrackSectorPair (fst r) (snd r)"
  shows "freeBit freshBam r"
proof -
  define t q where "t = fst r" and "q = snd r div 8"
  have t: "1 \<le> t" "t \<le> 35" "snd r < numSectors t"
    using assms by (simp_all add: d64_isTrackSectorPair_def t_def)
  have "numSectors t \<le> 21" by (simp add: numSectors_def)
  then have q: "q < 3" using t(3) unfolding q_def by simp
  obtain k where k: "t = Suc k" using t(1) by (cases t) simp_all
  have i: "4 * t + 1 + q = 4 + (4 * k + (1 + q))" using k by simp
  have "concat (map bamEntry [1..<36]) ! (4 * k + (1 + q)) = bamEntry ([1..<36] ! k) ! (1 + q)"
    by (rule concat_nth_uniform) (use k t(2) q in \<open>simp_all add: length_bamEntry\<close>)
  moreover have "[1..<36] ! k = t" using k t(2) by simp
  moreover have "4 * k + (1 + q) < length (concat (map bamEntry [1..<36]))"
  proof -
    have "length (concat (map bamEntry ts)) = 4 * length ts" for ts
      by (induction ts) (simp_all add: length_bamEntry)
    then show ?thesis using k t(2) q by simp
  qed
  ultimately have "freshBam ! (4 * t + 1 + q) = bamEntry t ! (1 + q)"
    unfolding freshBam_def i by (simp add: nth_append)
  then show ?thesis
    unfolding freeBit_def t_def [symmetric] q_def [symmetric]
    using bamEntry_bit [OF t(3)] by (simp add: q_def)
qed

lemma freshDisk_all_free:
  assumes "d64_isTrackSectorPair (fst r) (snd r)"
  shows "isFreeRef freshDisk r = Some True"
  using isFreeRef_freeBit [OF freshDisk_simps(1,2) _ assms] freshBam_free [OF assms]
  by (simp add: freshDisk_simps length_freshBam)

lemma makeFile_fresh_disk:
  assumes len: "0 < length buf" "length buf \<le> 164 * 254"
  shows "\<exists>dev'. makeFile dirInitD64 isEmptyZero freshDisk name buf = Some (True, dev')
           \<and> (\<forall>r. isValidRef layout_SS_SD r \<longrightarrow>
                  isFreeRef freshDisk r = Some True
                  \<and> isFreeRef dev' r = Some (r \<notin> set (fileChain buf)))
           \<and> card {r. isValidRef layout_SS_SD r \<and> isFreeRef dev' r = Some False}
               = numBlocksOf buf
           \<and> (\<forall>k<numBlocksOf buf.
                  linkAt dev' (blockNr dev' (fileChain buf ! k))
                    = (if Suc k < numBlocksOf buf then fileChain buf ! Suc k else (0, 0)))
           \<and> isEmptyZero (entryBytes freshDisk (358, 0))
           \<and> scanDirectory isEmptyZero isHidden dev' False = [(358, 0)]
           \<and> firstDataRef (entryBytes dev' (358, 0)) = (1, 0)
           \<and> fileChain buf ! 0 = (1, 0)
           \<and> fileSize (entryBytes dev' (358, 0)) = numBlocksOf buf
           \<and> readFile dev' (1, 0) = buf @ replicate (254 * numBlocksOf buf - length buf) 0
           \<and> readFiles isEmptyZero dev'
               = [buf @ replicate (254 * numBlocksOf buf - length buf) 0]
           \<and> (length buf mod 254 \<noteq> 0
                \<longrightarrow> makeFile dirInitD64 isEmptyZero freshDisk name (buf @ [0])
                      = makeFile dirInitD64 isEmptyZero freshDisk name buf)"
proof -
  define n where "n = numBlocksOf buf"
  define W where "W = fileChain buf"
  have n: "n = (length buf + 253) div 254" by (simp add: n_def numBlocksOf_def)
  have W: "W = walk layout_SS_SD (1, 0) n" by (simp add: W_def fileChain_def n_def)
  have n0: "0 < n" and n164: "n \<le> 164" using ceil_164 [OF len] n by simp_all
  have lenW: "length W = n" unfolding W by (rule length_walk)
  note w = walk_prefix [OF n164, folded W]
  have vW: "d64_isTrackSectorPair (fst r) (snd r)" if "r \<in> set W" for r
    using w(2) that dataRef_facts(1) by blast
  obtain dev' where
    mf: "makeFile dirInitD64 isEmptyZero freshDisk name buf = Some (True, dev')"
    and lay: "layout dev' = layout_SS_SD" and nb: "length (blocks dev') = 683"
    and dir: "data (blocks dev' ! 358)
        = dirInitD64 name (1, 0) n (replicate 32 0) @ replicate 224 0"
    and bam: "data (blocks dev' ! 357) = foldl clearBit freshBam W"
    and links: "\<And>k. k < n \<Longrightarrow> take 2 (data (blocks dev' ! blockNr freshDisk (W ! k)))
               = (if Suc k < n then [of_nat (fst (W ! Suc k)), of_nat (snd (W ! Suc k))]
                  else [0, 0])"
    and pay: "payload dev' (map (blockNr freshDisk) W)
        = buf @ replicate (254 * n - length buf) 0"
    and sn: "length buf mod 254 \<noteq> 0
        \<longrightarrow> makeFile dirInitD64 isEmptyZero freshDisk name (buf @ [0])
              = makeFile dirInitD64 isEmptyZero freshDisk name buf"
    using makeFile_fresh [OF len n W, of name] by blast
  have free: "isFreeRef freshDisk r = Some True \<and> isFreeRef dev' r = Some (r \<notin> set W)"
    if "isValidRef layout_SS_SD r" for r
  proof -
    have v: "d64_isTrackSectorPair (fst r) (snd r)"
      using that by (simp add: layout_SS_SD_simps)
    have "length (data (blocks dev' ! 357)) = 256"
      unfolding bam by (simp add: foldl_clearBit_length length_freshBam)
    from isFreeRef_freeBit [OF lay nb this v]
    have "isFreeRef dev' r = Some (freeBit (foldl clearBit freshBam W) r)"
      unfolding bam .
    also have "freeBit (foldl clearBit freshBam W) r = (freeBit freshBam r \<and> r \<notin> set W)"
      by (rule foldl_clearBit_freeBit) (use vW v length_freshBam in auto)
    finally show ?thesis
      using freshDisk_all_free [OF v] freshBam_free [OF v] by simp
  qed
  have "{r. isValidRef layout_SS_SD r \<and> isFreeRef dev' r = Some False} = set W"
  proof (rule set_eqI)
    fix r
    have "r \<in> set W \<Longrightarrow> isValidRef layout_SS_SD r"
      using vW by (simp add: layout_SS_SD_simps)
    then show "(r \<in> {r. isValidRef layout_SS_SD r \<and> isFreeRef dev' r = Some False})
        = (r \<in> set W)"
      using free [of r] by auto
  qed
  then have card: "card {r. isValidRef layout_SS_SD r \<and> isFreeRef dev' r = Some False} = n"
    using distinct_card [OF w(1)] lenW by simp
  note ch = written_chain [OF lay nb n0 n164 W links]
  have e0: "isEmptyZero (entryBytes freshDisk (358, 0))"
  proof -
    have "entryBytes freshDisk (358, 0) = replicate 32 0"
      unfolding entryBytes_def using freshDisk_simps(4) [of 358] by simp
    then show ?thesis by (simp add: isEmptyZero_simps)
  qed
  note sc = written_scan [OF lay nb dir length_entry entry_not_empty]
  have first: "firstDataRef (entryBytes dev' (358, 0)) = (1, 0)"
    unfolding sc(2) by (rule entry_first)
  have W0: "W ! 0 = (1, 0)" using n0 unfolding W by (cases n) simp_all
  have size: "fileSize (entryBytes dev' (358, 0)) = n"
    unfolding sc(2) by (rule entry_size) (use n164 in simp)
  have rd: "readFile dev' (1, 0) = buf @ replicate (254 * n - length buf) 0"
    using ch(2) pay by simp
  have rds: "readFiles isEmptyZero dev' = [buf @ replicate (254 * n - length buf) 0]"
    unfolding readFiles_def sc(4) using first rd by simp
  show ?thesis
    unfolding n_def [symmetric] W_def [symmetric]
    using mf free card ch(1) e0 sc(4) first W0 size rd rds sn by blast
qed

text \<open>
  C2, as the claim states it: for every payload of at most \<open>164 * 254\<close> bytes that
  \<open>makeFile\<close> writes onto a formatted disk, scanning the directory and reading the
  chain gives back exactly the bytes of the payload. The payloads \<open>[1]\<close> and \<open>[1, 0]\<close>
  are different, and \<open>makeFile\<close> leaves the same disk for both: the last block of a
  chain carries the link (0,0) and the directory entry the number of blocks, so the
  length of the payload is nowhere on the disk. Reading the chain of the file gives
  the 254 payload bytes of its block, the byte 1 and 253 zero bytes.
\<close>

theorem makeFile_length_lost_counterexample:
  "makeFile dirInitD64 isEmptyZero freshDisk ''FILE'' [1, 0]
     = makeFile dirInitD64 isEmptyZero freshDisk ''FILE'' [1]
   \<and> (\<exists>dev'. makeFile dirInitD64 isEmptyZero freshDisk ''FILE'' [1] = Some (True, dev')
          \<and> readFiles isEmptyZero dev' = [1 # replicate 253 0])"
proof -
  have n: "numBlocksOf [1] = 1" by (simp add: numBlocksOf_def)
  have "254 * numBlocksOf [1 :: u8] - length [1 :: u8] = 253" unfolding n by simp
  then show ?thesis
    using makeFile_fresh_disk [of "[1]" "''FILE''" "\<lambda>e. False"] by auto
qed

text \<open>
  C2, amended. For every name and every payload of \<open>len\<close> bytes with
  \<open>0 < len \<le> 164 * 254\<close>, \<open>makeFile\<close> on the formatted disk returns true. It
  allocates exactly \<open>(len + 253) div 254\<close> blocks: every block of the disk was free
  before, afterwards the blocks of the chain that starts at (1,0) are allocated and
  no others. Every block of the chain links to the next one and the last block
  carries the link (0,0). The first directory entry, which was empty, holds the first
  track and sector of the chain and the number of blocks, and it is the one entry
  that \<open>scanDirectory\<close> returns. Reading the chain from the first track and sector
  of the entry gives the payload followed by zero bytes up to the end of the last
  block: its first \<open>len\<close> bytes are the payload.
\<close>

theorem makeFile_round_trip:
  assumes "0 < length buf" "length buf \<le> 164 * 254"
  shows "\<exists>dev'. makeFile dirInitD64 isEmptyZero freshDisk name buf = Some (True, dev')
           \<and> (\<forall>r. isValidRef layout_SS_SD r \<longrightarrow>
                  isFreeRef freshDisk r = Some True
                  \<and> isFreeRef dev' r = Some (r \<notin> set (fileChain buf)))
           \<and> card {r. isValidRef layout_SS_SD r \<and> isFreeRef dev' r = Some False}
               = numBlocksOf buf
           \<and> (\<forall>k<numBlocksOf buf.
                  linkAt dev' (blockNr dev' (fileChain buf ! k))
                    = (if Suc k < numBlocksOf buf then fileChain buf ! Suc k else (0, 0)))
           \<and> isEmptyZero (entryBytes freshDisk (358, 0))
           \<and> scanDirectory isEmptyZero isHidden dev' False = [(358, 0)]
           \<and> firstDataRef (entryBytes dev' (358, 0)) = fileChain buf ! 0
           \<and> fileSize (entryBytes dev' (358, 0)) = numBlocksOf buf
           \<and> readFiles isEmptyZero dev'
               = [buf @ replicate (254 * numBlocksOf buf - length buf) 0]
           \<and> take (length buf) (readFile dev' (firstDataRef (entryBytes dev' (358, 0)))) = buf"
proof -
  obtain dev' where
    1: "makeFile dirInitD64 isEmptyZero freshDisk name buf = Some (True, dev')"
    and 2: "\<forall>r. isValidRef layout_SS_SD r \<longrightarrow>
                  isFreeRef freshDisk r = Some True
                  \<and> isFreeRef dev' r = Some (r \<notin> set (fileChain buf))"
    and 3: "card {r. isValidRef layout_SS_SD r \<and> isFreeRef dev' r = Some False}
               = numBlocksOf buf"
    and 4: "\<forall>k<numBlocksOf buf.
                  linkAt dev' (blockNr dev' (fileChain buf ! k))
                    = (if Suc k < numBlocksOf buf then fileChain buf ! Suc k else (0, 0))"
    and 5: "isEmptyZero (entryBytes freshDisk (358, 0))"
    and 6: "scanDirectory isEmptyZero isHidden dev' False = [(358, 0)]"
    and 7: "firstDataRef (entryBytes dev' (358, 0)) = (1, 0)" "fileChain buf ! 0 = (1, 0)"
    and 8: "fileSize (entryBytes dev' (358, 0)) = numBlocksOf buf"
    and 9: "readFile dev' (1, 0) = buf @ replicate (254 * numBlocksOf buf - length buf) 0"
    and 10: "readFiles isEmptyZero dev'
               = [buf @ replicate (254 * numBlocksOf buf - length buf) 0]"
    using makeFile_fresh_disk [OF assms, of name isHidden] by blast
  have "firstDataRef (entryBytes dev' (358, 0)) = fileChain buf ! 0" using 7 by simp
  moreover have "take (length buf) (readFile dev' (firstDataRef (entryBytes dev' (358, 0)))) = buf"
    unfolding 7(1) 9 by simp
  ultimately show ?thesis using 1 2 3 4 5 6 8 10 by blast
qed

theorem makeFile_round_trip_witness:
  "0 < length [1, 2, 3 :: u8] \<and> length [1, 2, 3 :: u8] \<le> 164 * 254
   \<and> numBlocksOf [1, 2, 3] = 1 \<and> fileChain [1, 2, 3] = [(1, 0)]
   \<and> (\<exists>dev'. makeFile dirInitD64 isEmptyZero freshDisk ''FILE'' [1, 2, 3] = Some (True, dev')
          \<and> isFreeRef freshDisk (1, 0) = Some True
          \<and> isFreeRef dev' (1, 0) = Some False
          \<and> isFreeRef dev' (1, 10) = Some True
          \<and> linkAt dev' (blockNr dev' (1, 0)) = (0, 0)
          \<and> scanDirectory isEmptyZero (\<lambda>e. False) dev' False = [(358, 0)]
          \<and> firstDataRef (entryBytes dev' (358, 0)) = (1, 0)
          \<and> fileSize (entryBytes dev' (358, 0)) = 1
          \<and> readFiles isEmptyZero dev' = [[1, 2, 3] @ replicate 251 0]
          \<and> take 3 (readFile dev' (firstDataRef (entryBytes dev' (358, 0)))) = [1, 2, 3])"
proof -
  have n: "numBlocksOf [1, 2, 3] = 1" by (simp add: numBlocksOf_def)
  have c: "fileChain [1, 2, 3] = [(1, 0)]" unfolding fileChain_def n by simp
  have v: "isValidRef layout_SS_SD (1, 0)" "isValidRef layout_SS_SD (1, 10)"
    by (simp_all add: layout_SS_SD_simps d64_isTrackSectorPair_def numSectors_def)
  obtain dev' where
    1: "makeFile dirInitD64 isEmptyZero freshDisk ''FILE'' [1, 2, 3] = Some (True, dev')"
    and 2: "\<forall>r. isValidRef layout_SS_SD r \<longrightarrow>
                  isFreeRef freshDisk r = Some True
                  \<and> isFreeRef dev' r = Some (r \<notin> set [(1, 0)])"
    and 4: "\<forall>k<1. linkAt dev' (blockNr dev' ([(1, 0)] ! k))
                    = (if Suc k < 1 then [(1, 0)] ! Suc k else (0, 0))"
    and 6: "scanDirectory isEmptyZero (\<lambda>e. False) dev' False = [(358, 0)]"
    and 7: "firstDataRef (entryBytes dev' (358, 0)) = [(1, 0)] ! 0"
    and 8: "fileSize (entryBytes dev' (358, 0)) = 1"
    and 10: "readFiles isEmptyZero dev' = [[1, 2, 3] @ replicate (254 * 1 - length [1, 2, 3 :: u8]) 0]"
    and 11: "take (length [1, 2, 3 :: u8]) (readFile dev' (firstDataRef (entryBytes dev' (358, 0))))
        = [1, 2, 3]"
    using makeFile_round_trip [of "[1, 2, 3]" "''FILE''" "\<lambda>e. False"]
    unfolding n c by auto
  have "isFreeRef freshDisk (1, 0) = Some True" "isFreeRef dev' (1, 0) = Some False"
    "isFreeRef dev' (1, 10) = Some True"
    using 2 v by auto
  moreover have "linkAt dev' (blockNr dev' (1, 0)) = (0, 0)" using 4 by simp
  moreover have "254 * 1 - length [1, 2, 3 :: u8] = 251" by simp
  ultimately show ?thesis using n c 1 6 7 8 10 11 by (auto simp: numeral_3_eq_3)
qed

end
